theory Spec2Isabelle
  imports Main "HOL-Library.Multiset"
begin

section \<open>JavaScript strings\<close>

text \<open>
  A JavaScript string is modelled as a \<open>string\<close>: one \<open>char\<close> per UTF-16 code unit, for
  texts whose code units are below 256 (ASCII and Latin-1). The path separator is that
  of POSIX, \<open>/\<close>.
\<close>

definition is_space :: "char \<Rightarrow> bool" where
  \<comment> \<open>The regular expression class \<open>\s\<close>, which is also what \<open>String.prototype.trim\<close> removes:
      TAB, LF, VT, FF, CR, space and the no-break space.\<close>
  "is_space c = (c = CHR 0x09 \<or> c = CHR 0x0A \<or> c = CHR 0x0B \<or> c = CHR 0x0C \<or> c = CHR 0x0D
                 \<or> c = CHR 0x20 \<or> c = CHR 0xA0)"

definition is_lt :: "char \<Rightarrow> bool" where
  \<comment> \<open>A line terminator: what \<open>.\<close> does not match, and where \<open>^\<close> and \<open>$\<close> match under the
      flag \<open>m\<close>. LF and CR.\<close>
  "is_lt c = (c = CHR 0x0A \<or> c = CHR 0x0D)"

definition is_upper :: "char \<Rightarrow> bool" where
  "is_upper c = ((65::nat) \<le> of_char c \<and> of_char c \<le> (90::nat))"

definition is_lower :: "char \<Rightarrow> bool" where
  "is_lower c = ((97::nat) \<le> of_char c \<and> of_char c \<le> (122::nat))"

definition is_digit :: "char \<Rightarrow> bool" where
  "is_digit c = ((48::nat) \<le> of_char c \<and> of_char c \<le> (57::nat))"

definition is_word :: "char \<Rightarrow> bool" where
  \<comment> \<open>The class \<open>\w\<close>: \<open>[A-Za-z0-9_]\<close>.\<close>
  "is_word c = (is_upper c \<or> is_lower c \<or> is_digit c \<or> c = CHR ''_'')"

definition is_quote :: "char \<Rightarrow> bool" where
  \<comment> \<open>The class \<open>['"]\<close>.\<close>
  "is_quote c = (c = CHR 0x27 \<or> c = CHR 0x22)"

definition trim :: "string \<Rightarrow> string" where
  "trim s = rev (dropWhile is_space (rev (dropWhile is_space s)))"

definition ends_with :: "string \<Rightarrow> string \<Rightarrow> bool" where
  \<comment> \<open>\<open>s.endsWith(suf)\<close>\<close>
  "ends_with suf s = (take (length suf) (rev s) = rev suf)"

definition starts_with :: "string \<Rightarrow> string \<Rightarrow> bool" where
  \<comment> \<open>\<open>s.startsWith(pre)\<close>\<close>
  "starts_with pre s = (take (length pre) s = pre)"

definition chop :: "nat \<Rightarrow> string \<Rightarrow> string" where
  \<comment> \<open>\<open>s\<close> without its last \<open>n\<close> characters.\<close>
  "chop n s = take (length s - n) s"

fun split_on :: "char \<Rightarrow> string \<Rightarrow> string list" where
  \<comment> \<open>\<open>s.split(sep)\<close> for a separator of one character: never an empty list.\<close>
  "split_on sep [] = [[]]"
| "split_on sep (c # cs) =
     (if c = sep then [] # split_on sep cs
      else (case split_on sep cs of [] \<Rightarrow> [[c]] | p # ps \<Rightarrow> (c # p) # ps))"

fun join_with :: "string \<Rightarrow> string list \<Rightarrow> string" where
  \<comment> \<open>\<open>parts.join(sep)\<close>\<close>
  "join_with sep [] = []"
| "join_with sep [p] = p"
| "join_with sep (p # q # ps) = p @ sep @ join_with sep (q # ps)"

definition to_upper :: "char \<Rightarrow> char" where
  \<comment> \<open>\<open>toUpperCase\<close> of one character of the class \<open>\w\<close>.\<close>
  "to_upper c = (if is_lower c then char_of (of_char c - (32::nat)) else c)"

section \<open>Node's \<open>path\<close> module (POSIX)\<close>

definition last_segment :: "string \<Rightarrow> string" where
  \<comment> \<open>The last run of characters other than \<open>/\<close>, trailing separators skipped.\<close>
  "last_segment p =
     rev (takeWhile (\<lambda>c. c \<noteq> CHR ''/'') (dropWhile (\<lambda>c. c = CHR ''/'') (rev p)))"

definition trailing_seps :: "string \<Rightarrow> string" where
  "trailing_seps p = takeWhile (\<lambda>c. c = CHR ''/'') (rev p)"

definition path_basename :: "string \<Rightarrow> string" where
  \<comment> \<open>\<open>path.basename(p)\<close>\<close>
  "path_basename p = last_segment p"

definition path_basename_ext :: "string \<Rightarrow> string \<Rightarrow> string" where
  \<comment> \<open>\<open>path.basename(p, suffix)\<close>. The suffix is compared from the end of the last segment:
      it is removed when it is a proper end of the segment; a segment that is the suffix
      itself is kept; a segment that is only an end of the suffix is returned with the
      path's trailing separators.\<close>
  "path_basename_ext p suf =
     (if suf = [] \<or> length p < length suf then path_basename p
      else if suf = p then []
      else (let seg = last_segment p in
        if ends_with suf seg then (if seg = suf then seg else chop (length suf) seg)
        else if length seg < length suf \<and> ends_with seg suf then seg @ trailing_seps p
        else seg))"

fun last_dot :: "string \<Rightarrow> string option" where
  \<comment> \<open>On the reversed segment: the reversed text from the last dot of the segment on.\<close>
  "last_dot [] = None"
| "last_dot (c # cs) =
     (if c = CHR ''.'' then Some [c]
      else (case last_dot cs of None \<Rightarrow> None | Some e \<Rightarrow> Some (c # e)))"

definition path_extname :: "string \<Rightarrow> string" where
  \<comment> \<open>\<open>path.extname(p)\<close>: from the last dot of the last segment, and empty when the segment
      has no dot, starts with its only dot, or is \<open>..\<close>.\<close>
  "path_extname p =
     (let seg = last_segment p in
      case last_dot (rev seg) of
        None \<Rightarrow> []
      | Some e \<Rightarrow> (if length e = length seg \<or> seg = ''..'' then [] else rev e))"

fun dirname_scan :: "string \<Rightarrow> bool \<Rightarrow> string option" where
  \<comment> \<open>The loop of \<open>path.dirname\<close>, from the last character down to the second one, on the
      reversed path without its first character; \<open>matchedSlash\<close> is the flag. The result
      is the part of the path between its first character and the separator found.\<close>
  "dirname_scan [] matchedSlash = None"
| "dirname_scan (c # cs) matchedSlash =
     (if c = CHR ''/'' then (if matchedSlash then dirname_scan cs matchedSlash else Some (rev cs))
      else dirname_scan cs False)"

definition path_dirname :: "string \<Rightarrow> string" where
  \<comment> \<open>\<open>path.dirname(p)\<close>\<close>
  "path_dirname p =
     (case p of
        [] \<Rightarrow> ''.''
      | c0 # cs \<Rightarrow>
          (case dirname_scan (rev cs) True of
             None \<Rightarrow> (if c0 = CHR ''/'' then ''/'' else ''.'')
           | Some pre \<Rightarrow> (if c0 = CHR ''/'' \<and> pre = [] then ''//'' else c0 # pre)))"

fun normalize_step :: "bool \<Rightarrow> string list \<Rightarrow> string \<Rightarrow> string list" where
  \<comment> \<open>One segment of \<open>normalizeString\<close>; the segments kept so far are a stack, the last
      one first.\<close>
  "normalize_step allowAboveRoot stack seg =
     (if seg = [] \<or> seg = ''.'' then stack
      else if seg = ''..'' then
        (case stack of
           [] \<Rightarrow> (if allowAboveRoot then [''..''] else [])
         | s # rest \<Rightarrow>
             (if s = ''..'' then (if allowAboveRoot then ''..'' # stack else stack)
              else rest))
      else seg # stack)"

definition normalizeString :: "string \<Rightarrow> bool \<Rightarrow> string" where
  "normalizeString p allowAboveRoot =
     join_with ''/'' (rev (foldl (normalize_step allowAboveRoot) [] (split_on CHR ''/'' p)))"

definition path_normalize :: "string \<Rightarrow> string" where
  \<comment> \<open>\<open>path.normalize(p)\<close>\<close>
  "path_normalize p =
     (if p = [] then ''.''
      else (let isAbsolute = (hd p = CHR ''/'');
                trailingSeparator = (last p = CHR ''/'');
                r = normalizeString p (\<not> isAbsolute)
            in if r = [] then (if isAbsolute then ''/'' else if trailingSeparator then ''./'' else ''.'')
               else (if isAbsolute then ''/'' else []) @ r @ (if trailingSeparator then ''/'' else [])))"

definition path_join :: "string list \<Rightarrow> string" where
  \<comment> \<open>\<open>path.join(...args)\<close>\<close>
  "path_join args =
     (let joined = join_with ''/'' (filter (\<lambda>a. a \<noteq> []) args)
      in if joined = [] then ''.'' else path_normalize joined)"

section \<open>The path normalizer of \<open>discoverFiles\<close>\<close>

definition category_of :: "string \<Rightarrow> string" where
  \<comment> \<open>\<open>const parts = file.split(path.sep); const category = parts[0] || 'other';\<close>\<close>
  "category_of file =
     (case split_on CHR ''/'' file of
        [] \<Rightarrow> ''other''
      | p # _ \<Rightarrow> (if p = [] then ''other'' else p))"

definition strip_locale :: "string \<Rightarrow> string" where
  \<comment> \<open>\<open>.replace(/\.(en|ru)\.(mdx|md)$/, '.$2')\<close>\<close>
  "strip_locale s =
     (if ends_with ''.en.mdx'' s \<or> ends_with ''.ru.mdx'' s then chop 7 s @ ''.mdx''
      else if ends_with ''.en.md'' s \<or> ends_with ''.ru.md'' s then chop 6 s @ ''.md''
      else s)"

definition md_ext :: "string \<Rightarrow> string" where
  \<comment> \<open>\<open>.replace(/\.(mdx|md)$/, '.md')\<close>\<close>
  "md_ext s =
     (if ends_with ''.mdx'' s then chop 4 s @ ''.md''
      else if ends_with ''.md'' s then chop 3 s @ ''.md''
      else s)"

definition urlPath_of :: "string \<Rightarrow> string" where
  \<comment> \<open>The value of \<open>urlPath\<close> that \<open>discoverFiles\<close> computes for the relative path \<open>file\<close>.\<close>
  "urlPath_of file =
     (let urlPath = md_ext (strip_locale file);
          dir = path_dirname urlPath;
          basename = path_basename_ext urlPath ''.md''
      in if basename = ''index'' \<or> basename = ''_index'' then
           (let dirName = path_basename dir
            in if dirName \<noteq> [] then path_join [dir, dirName @ ''.md''] else urlPath)
         else urlPath)"

section \<open>Metadata\<close>

datatype jsval = Str string | Arr "string list"

text \<open>
  \<open>FileMetadata\<close> is an object with an index signature: a map from keys to values, a value
  being a string or an array of strings.
\<close>

type_synonym FileMetadata = "string \<rightharpoonup> jsval"

record ProcessedContent =
  metadata :: FileMetadata
  content :: string

definition truthy :: "jsval option \<Rightarrow> bool" where
  \<comment> \<open>\<open>if (v)\<close>: a missing key and the empty string are falsy, an array is truthy.\<close>
  "truthy v = (case v of None \<Rightarrow> False | Some (Str s) \<Rightarrow> s \<noteq> [] | Some (Arr a) \<Rightarrow> True)"

fun first_match :: "(string \<Rightarrow> 'a option) \<Rightarrow> string \<Rightarrow> 'a option" where
  \<comment> \<open>\<open>s.match(re)\<close> for a pattern with no anchor: the match at the leftmost position that
      has one; \<open>m\<close> matches the pattern at the start of its argument.\<close>
  "first_match m [] = m []"
| "first_match m (c # cs) =
     (case m (c # cs) of Some r \<Rightarrow> Some r | None \<Rightarrow> first_match m cs)"

fun first_line_match :: "(string \<Rightarrow> 'a option) \<Rightarrow> bool \<Rightarrow> string \<Rightarrow> 'a option" where
  \<comment> \<open>\<open>s.match(re)\<close> for a pattern \<open>/^.../m\<close>: the leftmost match among the positions at the
      start of the text or right after a line terminator; \<open>bol\<close> says whether the current
      position is one.\<close>
  "first_line_match m bol [] = (if bol then m [] else None)"
| "first_line_match m bol (c # cs) =
     (case (if bol then m (c # cs) else None) of
        Some r \<Rightarrow> Some r
      | None \<Rightarrow> first_line_match m (is_lt c) cs)"

fun replace_first_line :: "(string \<Rightarrow> string option) \<Rightarrow> bool \<Rightarrow> string \<Rightarrow> string" where
  \<comment> \<open>\<open>s.replace(re, '')\<close> for a pattern \<open>/^.../m\<close> without the flag \<open>g\<close>; \<open>m\<close> gives the text
      after its match.\<close>
  "replace_first_line m bol [] = []"
| "replace_first_line m bol (c # cs) =
     (case (if bol then m (c # cs) else None) of
        Some rest \<Rightarrow> rest
      | None \<Rightarrow> c # replace_first_line m (is_lt c) cs)"

fun replace_all :: "(string \<Rightarrow> string option) \<Rightarrow> nat \<Rightarrow> string \<Rightarrow> string" where
  \<comment> \<open>\<open>s.replace(re, '')\<close> for a pattern with the flag \<open>g\<close> that matches no empty text; \<open>m\<close>
      gives the text after its match, and \<open>skip\<close> counts the characters of the current
      match still to remove.\<close>
  "replace_all m skip [] = []"
| "replace_all m (Suc skip) (c # cs) = replace_all m skip cs"
| "replace_all m 0 (c # cs) =
     (case m (c # cs) of
        Some rest \<Rightarrow> replace_all m (length cs - length rest) cs
      | None \<Rightarrow> c # replace_all m 0 cs)"

subsection \<open>\<open>extractMetadataValues\<close>\<close>

definition quoted_here :: "string \<Rightarrow> string \<Rightarrow> string option" where
  \<comment> \<open>\<open>/KEY:\s*['"]([^'"]+)['"]/\<close> at the start of \<open>s\<close>: group 1.\<close>
  "quoted_here key s =
     (if starts_with (key @ '':'') s then
        (case dropWhile is_space (drop (length key + 1) s) of
           [] \<Rightarrow> None
         | q # r \<Rightarrow>
             (if is_quote q \<and> takeWhile (\<lambda>c. \<not> is_quote c) r \<noteq> []
                 \<and> dropWhile (\<lambda>c. \<not> is_quote c) r \<noteq> []
              then Some (takeWhile (\<lambda>c. \<not> is_quote c) r) else None))
      else None)"

definition bracketed_here :: "string \<Rightarrow> string option" where
  \<comment> \<open>\<open>/tags:\s*\[([^\]]+)\]/\<close> at the start of \<open>s\<close>: group 1.\<close>
  "bracketed_here s =
     (if starts_with ''tags:'' s then
        (case dropWhile is_space (drop 5 s) of
           [] \<Rightarrow> None
         | b # r \<Rightarrow>
             (if b = CHR ''['' \<and> takeWhile (\<lambda>c. c \<noteq> CHR '']'') r \<noteq> []
                 \<and> dropWhile (\<lambda>c. c \<noteq> CHR '']'') r \<noteq> []
              then Some (takeWhile (\<lambda>c. c \<noteq> CHR '']'') r) else None))
      else None)"

definition strip_quotes :: "string \<Rightarrow> string" where
  \<comment> \<open>\<open>.replace(/['"]/g, '')\<close>\<close>
  "strip_quotes s = filter (\<lambda>c. \<not> is_quote c) s"

definition parse_list :: "string \<Rightarrow> string list" where
  \<comment> \<open>\<open>.split(',').map(t => t.trim().replace(/['"]/g, '')).filter(t => t.length > 0)\<close>\<close>
  "parse_list s =
     filter (\<lambda>t. t \<noteq> []) (map (\<lambda>t. strip_quotes (trim t)) (split_on CHR '','' s))"

definition set_quoted :: "string \<Rightarrow> string \<Rightarrow> FileMetadata \<Rightarrow> FileMetadata" where
  "set_quoted key metadataStr m =
     (case first_match (quoted_here key) metadataStr of
        Some v \<Rightarrow> m(key \<mapsto> Str v)
      | None \<Rightarrow> m)"

definition set_tags :: "string \<Rightarrow> FileMetadata \<Rightarrow> FileMetadata" where
  "set_tags metadataStr m =
     (case first_match bracketed_here metadataStr of
        Some tagsStr \<Rightarrow>
          (let tags = parse_list tagsStr in if tags \<noteq> [] then m(''tags'' \<mapsto> Arr tags) else m)
      | None \<Rightarrow> m)"

definition extractMetadataValues :: "string \<Rightarrow> FileMetadata" where
  "extractMetadataValues metadataStr =
     set_tags metadataStr
       (set_quoted ''slug'' metadataStr
         (set_quoted ''description'' metadataStr
           (set_quoted ''title'' metadataStr Map.empty)))"

subsection \<open>The block header \<open>---\<close>\<close>

definition closing_here :: "string \<Rightarrow> string option" where
  \<comment> \<open>\<open>\n---\s*\n\<close> at the start of \<open>s\<close>: the text after the match, which ends with the last
      line feed of the white space after the hyphens.\<close>
  "closing_here s =
     (if starts_with ''\<newline>---'' s then
        (let ws = takeWhile is_space (drop 4 s) in
         if CHR 0x0A \<in> set ws
         then Some (rev (takeWhile (\<lambda>c. c \<noteq> CHR 0x0A) (rev ws)) @ dropWhile is_space (drop 4 s))
         else None)
      else None)"

fun lazy_block :: "string \<Rightarrow> (string \<times> string) option" where
  \<comment> \<open>\<open>([\s\S]*?)\n---\s*\n\<close>: the shortest group 1 and the text after the match.\<close>
  "lazy_block [] = None"
| "lazy_block (c # cs) =
     (case closing_here (c # cs) of
        Some rest \<Rightarrow> Some ([], rest)
      | None \<Rightarrow> (case lazy_block cs of Some (g, rest) \<Rightarrow> Some (c # g, rest) | None \<Rightarrow> None))"

fun open_block :: "string \<Rightarrow> (string \<times> string) option" where
  \<comment> \<open>\<open>\s*\n([\s\S]*?)\n---\s*\n\<close>: the greedy \<open>\s*\<close> keeps a character when the rest then
      matches, and gives it back otherwise.\<close>
  "open_block [] = None"
| "open_block (c # cs) =
     (if is_space c then
        (case open_block cs of
           Some r \<Rightarrow> Some r
         | None \<Rightarrow> (if c = CHR 0x0A then lazy_block cs else None))
      else None)"

definition frontmatterMatch :: "string \<Rightarrow> (string \<times> string) option" where
  \<comment> \<open>\<open>content.match(/^---\s*\n([\s\S]*?)\n---\s*\n/)\<close>: group 1 and the text after the
      match, which is \<open>content.replace\<close> of the same pattern by the empty string.\<close>
  "frontmatterMatch c = (if starts_with ''---'' c then open_block (drop 3 c) else None)"

fun spaces_then_rest :: "string \<Rightarrow> string option" where
  \<comment> \<open>\<open>\s*(.+)$\<close> without the flag \<open>m\<close>: group 1 runs to the end of the text.\<close>
  "spaces_then_rest [] = None"
| "spaces_then_rest (c # cs) =
     (case (if is_space c then spaces_then_rest cs else None) of
        Some g \<Rightarrow> Some g
      | None \<Rightarrow> (if list_ex is_lt (c # cs) then None else Some (c # cs)))"

definition line_match :: "string \<Rightarrow> (string \<times> string) option" where
  \<comment> \<open>\<open>line.match(/^(\w+):\s*(.+)$/)\<close>: groups 1 and 2.\<close>
  "line_match line =
     (let key = takeWhile is_word line in
      if key = [] then None
      else (case dropWhile is_word line of
              [] \<Rightarrow> None
            | c # r \<Rightarrow>
                (if c = CHR '':'' then
                   (case spaces_then_rest r of None \<Rightarrow> None | Some v \<Rightarrow> Some (key, v))
                 else None)))"

definition unquote :: "string \<Rightarrow> string" where
  \<comment> \<open>\<open>.replace(/^['"]|['"]$/g, '')\<close>\<close>
  "unquote s =
     (let s1 = (case s of [] \<Rightarrow> [] | c # cs \<Rightarrow> if is_quote c then cs else s)
      in if s1 \<noteq> [] \<and> is_quote (last s1) then butlast s1 else s1)"

definition set_key :: "FileMetadata \<Rightarrow> string \<Rightarrow> jsval \<Rightarrow> FileMetadata" where
  \<comment> \<open>\<open>metadata[key] = value\<close> on a plain object. The key \<open>__proto__\<close> goes to the setter of
      the prototype: no property is created, a string is ignored, and a list becomes the
      prototype of the object, which has none of the properties that the program reads.\<close>
  "set_key m key v = (if key = ''__proto__'' then m else m(key \<mapsto> v))"

definition md_line :: "FileMetadata \<Rightarrow> string \<Rightarrow> FileMetadata" where
  \<comment> \<open>The body of the \<open>forEach\<close> of \<open>processMDFile\<close>.\<close>
  "md_line m line =
     (case line_match line of
        None \<Rightarrow> m
      | Some (key, v) \<Rightarrow> set_key m (trim key) (Str (unquote (trim v))))"

definition mdx_line :: "FileMetadata \<Rightarrow> string \<Rightarrow> FileMetadata" where
  \<comment> \<open>The body of the \<open>forEach\<close> of \<open>processMDXFile\<close>.\<close>
  "mdx_line m line =
     (case line_match line of
        None \<Rightarrow> m
      | Some (key, v) \<Rightarrow>
          (let val = unquote (trim v) in
           if starts_with ''['' val \<and> ends_with '']'' val
           then set_key m (trim key) (Arr (parse_list (butlast (tl val))))
           else set_key m (trim key) (Str val)))"

subsection \<open>\<open>processMDFile\<close>\<close>

definition processMDFile :: "string \<Rightarrow> ProcessedContent" where
  \<comment> \<open>On the text read from the file.\<close>
  "processMDFile c =
     (case frontmatterMatch c of
        Some (frontmatter, rest) \<Rightarrow>
          (if frontmatter \<noteq> [] then
             \<lparr>metadata = foldl md_line Map.empty (split_on CHR 0x0A frontmatter),
              content = trim rest\<rparr>
           else \<lparr>metadata = Map.empty, content = trim c\<rparr>)
      | None \<Rightarrow> \<lparr>metadata = Map.empty, content = trim c\<rparr>)"

subsection \<open>\<open>processMDXFile\<close>\<close>

definition stmt_end :: "string \<Rightarrow> bool" where
  \<comment> \<open>\<open>;?\s*\n\<close> at the start of \<open>s\<close>\<close>
  "stmt_end s =
     (let r = (case s of [] \<Rightarrow> [] | c # cs \<Rightarrow> if c = CHR '';'' then cs else s)
      in CHR 0x0A \<in> set (takeWhile is_space r))"

fun lazy_object :: "string \<Rightarrow> string option" where
  \<comment> \<open>\<open>[\s\S]*?});?\s*\n\<close>: the shortest text up to a closing brace that ends the
      statement, the brace included.\<close>
  "lazy_object [] = None"
| "lazy_object (c # cs) =
     (if c = CHR ''}'' \<and> stmt_end cs then Some [c]
      else (case lazy_object cs of Some g \<Rightarrow> Some (c # g) | None \<Rightarrow> None))"

definition after_word :: "string \<Rightarrow> bool \<Rightarrow> string \<Rightarrow> string option" where
  \<comment> \<open>The literal \<open>w\<close>, then \<open>\s+\<close> (when \<open>some\<close>) or \<open>\s*\<close>: the text after them.\<close>
  "after_word w some s =
     (if starts_with w s \<and> (\<not> some \<or> (case drop (length w) s of [] \<Rightarrow> False | c # _ \<Rightarrow> is_space c))
      then Some (dropWhile is_space (drop (length w) s)) else None)"

definition export_head :: "string \<Rightarrow> string option" where
  \<comment> \<open>\<open>export\s+const\s+metadata\s*=\s*{\<close> at the start of \<open>s\<close>: the text after the brace.\<close>
  "export_head s =
     (case after_word ''export'' True s of None \<Rightarrow> None | Some s1 \<Rightarrow>
      (case after_word ''const'' True s1 of None \<Rightarrow> None | Some s2 \<Rightarrow>
       (case after_word ''metadata'' False s2 of None \<Rightarrow> None | Some s3 \<Rightarrow>
        (case after_word ''='' False s3 of None \<Rightarrow> None | Some s4 \<Rightarrow>
         (case s4 of [] \<Rightarrow> None | c # s5 \<Rightarrow> if c = CHR ''{'' then Some s5 else None)))))"

definition export_here :: "string \<Rightarrow> string option" where
  \<comment> \<open>\<open>export\s+const\s+metadata\s*=\s*({[\s\S]*?});?\s*\n\<close> at the start of \<open>s\<close>: group 1.\<close>
  "export_here s =
     (case export_head s of
        None \<Rightarrow> None
      | Some s5 \<Rightarrow> (case lazy_object s5 of None \<Rightarrow> None | Some g \<Rightarrow> Some (CHR ''{'' # g)))"

definition export_removed :: "string \<Rightarrow> string option" where
  \<comment> \<open>\<open>export\s+const\s+metadata\s*=\s*({[\s\S]*?});?\s*\n?\<close> at the start of \<open>s\<close>: the text
      after the match. The group ends with the first closing brace.\<close>
  "export_removed s =
     (case export_head s of
        None \<Rightarrow> None
      | Some s5 \<Rightarrow>
          (case dropWhile (\<lambda>c. c \<noteq> CHR ''}'') s5 of
             [] \<Rightarrow> None
           | _ # r \<Rightarrow>
               Some (dropWhile is_space (case r of [] \<Rightarrow> [] | c # cs \<Rightarrow> if c = CHR '';'' then cs else r))))"

definition close_tag_here :: "string \<Rightarrow> string option" where
  \<comment> \<open>\<open><\/[A-Z][\w]*>\<close> at the start of \<open>s\<close>: the text after the match.\<close>
  "close_tag_here s =
     (case s of
        a # b # u # r \<Rightarrow>
          (if a = CHR ''<'' \<and> b = CHR ''/'' \<and> is_upper u then
             (case dropWhile is_word r of [] \<Rightarrow> None | g # rest \<Rightarrow> if g = CHR ''>'' then Some rest else None)
           else None)
      | _ \<Rightarrow> None)"

definition component_here :: "string \<Rightarrow> string option" where
  \<comment> \<open>\<open><[A-Z][\w]*[^>]*>[\s\S]*?<\/[A-Z][\w]*>\<close> at the start of \<open>s\<close>: the text after the
      match. The opening tag ends with the first \<open>>\<close>.\<close>
  "component_here s =
     (case s of
        a # u # r \<Rightarrow>
          (if a = CHR ''<'' \<and> is_upper u then
             (case dropWhile (\<lambda>c. c \<noteq> CHR ''>'') r of
                [] \<Rightarrow> None
              | _ # body \<Rightarrow> first_match close_tag_here body)
           else None)
      | _ \<Rightarrow> None)"

definition self_closing_here :: "string \<Rightarrow> string option" where
  \<comment> \<open>\<open><[A-Z][\w]*[^>]*\/>\<close> at the start of \<open>s\<close>: the text after the match.\<close>
  "self_closing_here s =
     (case s of
        a # u # r \<Rightarrow>
          (if a = CHR ''<'' \<and> is_upper u then
             (let inner = takeWhile (\<lambda>c. c \<noteq> CHR ''>'') r in
              case dropWhile (\<lambda>c. c \<noteq> CHR ''>'') r of
                [] \<Rightarrow> None
              | _ # rest \<Rightarrow> if inner \<noteq> [] \<and> last inner = CHR ''/'' then Some rest else None)
           else None)
      | _ \<Rightarrow> None)"

definition from_here :: "string \<Rightarrow> string option" where
  \<comment> \<open>\<open>from\s+['"][^'"]+['"]\<close> at the start of \<open>s\<close>: the text after the match.\<close>
  "from_here s =
     (case after_word ''from'' True s of
        None \<Rightarrow> None
      | Some s1 \<Rightarrow>
          (case s1 of
             [] \<Rightarrow> None
           | q # r \<Rightarrow>
               (if is_quote q \<and> takeWhile (\<lambda>c. \<not> is_quote c) r \<noteq> []
                then (case dropWhile (\<lambda>c. \<not> is_quote c) r of [] \<Rightarrow> None | _ # rest \<Rightarrow> Some rest)
                else None)))"

fun lazy_from :: "string \<Rightarrow> string option" where
  \<comment> \<open>\<open>.*?from\s+['"][^'"]+['"]\<close>: the lazy \<open>.*?\<close> crosses no line terminator.\<close>
  "lazy_from [] = from_here []"
| "lazy_from (c # cs) =
     (case from_here (c # cs) of
        Some rest \<Rightarrow> Some rest
      | None \<Rightarrow> (if is_lt c then None else lazy_from cs))"

fun spaces_from :: "string \<Rightarrow> string option" where
  \<comment> \<open>\<open>\s*.*?from\s+['"][^'"]+['"]\<close> with the greedy \<open>\s*\<close>\<close>
  "spaces_from [] = lazy_from []"
| "spaces_from (c # cs) =
     (case (if is_space c then spaces_from cs else None) of
        Some rest \<Rightarrow> Some rest
      | None \<Rightarrow> lazy_from (c # cs))"

definition import_here :: "string \<Rightarrow> string option" where
  \<comment> \<open>\<open>import\s+.*?from\s+['"][^'"]+['"];?\s*\n?\<close> at the start of \<open>s\<close>: the text after the
      match.\<close>
  "import_here s =
     (if starts_with ''import'' s then
        (case drop 6 s of
           [] \<Rightarrow> None
         | w # r \<Rightarrow>
             (if is_space w then
                (case spaces_from r of
                   None \<Rightarrow> None
                 | Some rest \<Rightarrow>
                     Some (dropWhile is_space
                            (case rest of [] \<Rightarrow> [] | c # cs \<Rightarrow> if c = CHR '';'' then cs else rest)))
              else None))
      else None)"

definition strip_markup :: "string \<Rightarrow> string" where
  \<comment> \<open>The three \<open>replace\<close> calls on \<open>markdownContent\<close>.\<close>
  "strip_markup s =
     replace_all import_here 0 (replace_all self_closing_here 0 (replace_all component_here 0 s))"

definition processMDXFile :: "string \<Rightarrow> ProcessedContent" where
  \<comment> \<open>On the text read from the file.\<close>
  "processMDXFile c =
     (let block = (case frontmatterMatch c of
                     Some (frontmatter, rest) \<Rightarrow> if frontmatter \<noteq> [] then Some (frontmatter, rest) else None
                   | None \<Rightarrow> None)
      in case block of
        Some (frontmatter, rest) \<Rightarrow>
          \<lparr>metadata = foldl mdx_line Map.empty (split_on CHR 0x0A frontmatter),
           content = trim (strip_markup rest)\<rparr>
      | None \<Rightarrow>
          (case first_line_match export_here True c of
             Some metadataStr \<Rightarrow>
               \<lparr>metadata = extractMetadataValues metadataStr,
                content = trim (strip_markup (replace_first_line export_removed True c))\<rparr>
           | None \<Rightarrow> \<lparr>metadata = Map.empty, content = trim (strip_markup c)\<rparr>))"

section \<open>Title and description\<close>

fun spaces_then_text :: "string \<Rightarrow> string option" where
  \<comment> \<open>\<open>\s*(.+)$\<close> with the flag \<open>m\<close>: group 1 runs to the end of its line.\<close>
  "spaces_then_text [] = None"
| "spaces_then_text (c # cs) =
     (case (if is_space c then spaces_then_text cs else None) of
        Some g \<Rightarrow> Some g
      | None \<Rightarrow> (if is_lt c then None else Some (takeWhile (\<lambda>x. \<not> is_lt x) (c # cs))))"

definition h1_here :: "string \<Rightarrow> string option" where
  \<comment> \<open>\<open>#\s+(.+)$\<close> at the start of \<open>s\<close>: group 1.\<close>
  "h1_here s =
     (case s of
        h # w # r \<Rightarrow> (if h = CHR ''#'' \<and> is_space w then spaces_then_text r else None)
      | _ \<Rightarrow> None)"

fun capitalize :: "bool \<Rightarrow> string \<Rightarrow> string" where
  \<comment> \<open>\<open>.replace(/\b\w/g, l => l.toUpperCase())\<close>; \<open>prev\<close> says whether the character before
      is of the class \<open>\w\<close>.\<close>
  "capitalize prev [] = []"
| "capitalize prev (c # cs) =
     (if is_word c \<and> \<not> prev then to_upper c else c) # capitalize (is_word c) cs"

definition filename_title :: "string \<Rightarrow> string" where
  "filename_title filePath =
     (let basename = path_basename_ext filePath (path_extname filePath)
      in capitalize False
           (map (\<lambda>c. if c = CHR ''-'' \<or> c = CHR ''_'' then CHR '' '' else c) basename))"

definition extractTitle :: "string \<Rightarrow> FileMetadata \<Rightarrow> string \<Rightarrow> jsval" where
  "extractTitle filePath m body =
     (if truthy (m ''title'') then the (m ''title'')
      else (case first_line_match h1_here True body of
              Some g \<Rightarrow> Str (trim g)
            | None \<Rightarrow> Str (filename_title filePath)))"

definition paragraph_here :: "string \<Rightarrow> string option" where
  \<comment> \<open>\<open>([^\n#].{50,200})\<close> at the start of \<open>s\<close>: group 1.\<close>
  "paragraph_here s =
     (case s of
        [] \<Rightarrow> None
      | c # cs \<Rightarrow>
          (if c \<noteq> CHR 0x0A \<and> c \<noteq> CHR ''#'' \<and> 50 \<le> length (takeWhile (\<lambda>x. \<not> is_lt x) cs)
           then Some (c # take 200 (takeWhile (\<lambda>x. \<not> is_lt x) cs)) else None))"

definition extractDescription :: "FileMetadata \<Rightarrow> string \<Rightarrow> jsval option" where
  \<comment> \<open>\<open>None\<close> is \<open>undefined\<close>.\<close>
  "extractDescription m body =
     (if truthy (m ''description'') then m ''description''
      else (case first_line_match paragraph_here True body of
              Some g \<Rightarrow>
                Some (Str (take 200 (map (\<lambda>c. if c = CHR 0x0A then CHR '' '' else c) (trim g))))
            | None \<Rightarrow> None))"

section \<open>The file system\<close>

text \<open>
  The state of the file system: the directories that exist, the files with their texts,
  and the reads, writes and directory creations attempted so far, the latest last.
  \<open>existsSync\<close> is a query and leaves no trace.
\<close>

datatype io = Read string | Write string | Mkdir string

datatype error =
    ContentDirNotFound string
  | ReadFailed string
  | WriteFailed string
  | MkdirFailed string
  | SortFailed

record fs_state =
  dirs :: "string set"
  files :: "string \<rightharpoonup> string"
  log :: "io list"

definition existsSync :: "string \<Rightarrow> fs_state \<Rightarrow> bool" where
  "existsSync p st = (p \<in> dirs st \<or> files st p \<noteq> None)"

definition readFileSync :: "string \<Rightarrow> fs_state \<Rightarrow> fs_state \<times> (error + string)" where
  "readFileSync p st =
     (let st' = st\<lparr>log := log st @ [Read p]\<rparr>
      in case files st p of None \<Rightarrow> (st', Inl (ReadFailed p)) | Some c \<Rightarrow> (st', Inr c))"

definition writeFileSync :: "string \<Rightarrow> string \<Rightarrow> fs_state \<Rightarrow> fs_state \<times> (error + unit)" where
  \<comment> \<open>Fails on a directory and in a directory that does not exist.\<close>
  "writeFileSync p c st =
     (let st' = st\<lparr>log := log st @ [Write p]\<rparr>
      in if p \<in> dirs st \<or> path_dirname p \<notin> dirs st then (st', Inl (WriteFailed p))
         else (st'\<lparr>files := (files st)(p \<mapsto> c)\<rparr>, Inr ()))"

definition ancestors :: "string \<Rightarrow> string list" where
  \<comment> \<open>The path and the directories above it, the outermost first.\<close>
  "ancestors p =
     (let segs = filter (\<lambda>s. s \<noteq> []) (split_on CHR ''/'' p);
          root = (if starts_with ''/'' p then ''/'' else [])
      in map (\<lambda>n. root @ join_with ''/'' (take n segs)) [1 ..< Suc (length segs)])"

definition mkdirSync :: "string \<Rightarrow> fs_state \<Rightarrow> fs_state \<times> (error + unit)" where
  \<comment> \<open>\<open>fs.mkdirSync(p, {recursive: true})\<close>: fails when the path or a directory above it is a
      file.\<close>
  "mkdirSync p st =
     (let st' = st\<lparr>log := log st @ [Mkdir p]\<rparr>
      in if list_ex (\<lambda>a. files st a \<noteq> None) (ancestors p) then (st', Inl (MkdirFailed p))
         else (st'\<lparr>dirs := dirs st \<union> set (ancestors p)\<rparr>, Inr ()))"

definition bind ::
  "fs_state \<times> (error + 'a) \<Rightarrow> ('a \<Rightarrow> fs_state \<Rightarrow> fs_state \<times> (error + 'b)) \<Rightarrow> fs_state \<times> (error + 'b)" where
  \<comment> \<open>Sequencing: an exception ends the run at the state it was thrown in.\<close>
  "bind r f = (case r of (st, Inl e) \<Rightarrow> (st, Inl e) | (st, Inr x) \<Rightarrow> f x st)"

definition ensure_dir :: "string \<Rightarrow> fs_state \<Rightarrow> fs_state \<times> (error + unit)" where
  \<comment> \<open>\<open>if (!fs.existsSync(d)) fs.mkdirSync(d, {recursive: true});\<close>\<close>
  "ensure_dir d st = (if \<not> existsSync d st then mkdirSync d st else (st, Inr ()))"

definition path_resolve :: "string \<Rightarrow> string list \<Rightarrow> string" where
  \<comment> \<open>\<open>path.resolve(...args)\<close> in the working directory \<open>cwd\<close>: the arguments from the last
      one back, up to the first absolute one.\<close>
  "path_resolve cwd args =
     (let (resolvedPath, resolvedAbsolute) =
            foldl (\<lambda>(rp, ra) p. if ra \<or> p = [] then (rp, ra) else (p @ ''/'' @ rp, hd p = CHR ''/''))
              ([], False) (rev args @ [cwd]);
          r = normalizeString resolvedPath (\<not> resolvedAbsolute)
      in if resolvedAbsolute then CHR ''/'' # r else if r \<noteq> [] then r else ''.'')"

section \<open>\<open>discoverFiles\<close>\<close>

record ProcessedFile =
  relativePath :: string
  url :: string
  title :: jsval
  description :: "jsval option"
  category :: string

record GenerateOptions =
  contentDir :: string
  outputDir :: string
  baseUrl :: "string option"
  projectName :: "string option"
  projectDescription :: "string option"

text \<open>
  What the program takes from its environment: the working directory of the process, the
  file enumeration \<open>glob('**/*.{mdx,md}', ...)\<close> in a directory, \<open>toUpperCase\<close> on a first
  letter, and \<open>Array.prototype.sort\<close> with \<open>localeCompare\<close> on the titles (\<open>None\<close> when the
  comparison throws).
\<close>

record env =
  cwd :: string
  glob :: "string \<Rightarrow> fs_state \<Rightarrow> string list"
  toUpperCase :: "string \<Rightarrow> string"
  sortByTitle :: "ProcessedFile list \<Rightarrow> ProcessedFile list option"

definition discover_step ::
  "string \<Rightarrow> string \<Rightarrow> ProcessedFile list \<Rightarrow> string \<Rightarrow> fs_state \<Rightarrow> fs_state \<times> (error + ProcessedFile list)" where
  \<comment> \<open>The body of the loop over the files found.\<close>
  "discover_step cDir oDir fs file st =
     (let filePath = path_join [cDir, file];
          ext = path_extname file
      in bind (readFileSync filePath st) (\<lambda>raw st1.
           let result = (if ext = ''.mdx'' then processMDXFile raw else processMDFile raw);
               urlPath = urlPath_of file;
               entry = \<lparr>relativePath = file, url = ''/md/'' @ urlPath,
                        title = extractTitle filePath (metadata result) (content result),
                        description = extractDescription (metadata result) (content result),
                        category = category_of file\<rparr>;
               outputMdPath = path_join [oDir, ''md'', urlPath]
           in bind (ensure_dir (path_dirname outputMdPath) st1) (\<lambda>_ st2.
                bind (writeFileSync outputMdPath (content result) st2) (\<lambda>_ st3.
                  (st3, Inr (fs @ [entry]))))))"

fun discover_loop ::
  "string \<Rightarrow> string \<Rightarrow> string list \<Rightarrow> ProcessedFile list \<Rightarrow> fs_state \<Rightarrow> fs_state \<times> (error + ProcessedFile list)" where
  "discover_loop cDir oDir [] fs st = (st, Inr fs)"
| "discover_loop cDir oDir (file # rest) fs st =
     bind (discover_step cDir oDir fs file st) (\<lambda>fs' st'. discover_loop cDir oDir rest fs' st')"

definition discoverFiles ::
  "env \<Rightarrow> string \<Rightarrow> string \<Rightarrow> fs_state \<Rightarrow> fs_state \<times> (error + ProcessedFile list)" where
  "discoverFiles e cDir oDir st = discover_loop cDir oDir (glob e cDir st) [] st"

section \<open>\<open>generateLLMsTxt\<close>\<close>

fun push_file ::
  "string \<Rightarrow> ProcessedFile \<Rightarrow> (string \<times> ProcessedFile list) list \<Rightarrow> (string \<times> ProcessedFile list) list" where
  \<comment> \<open>\<open>const categoryFiles = filesByCategory.get(k); if (categoryFiles) categoryFiles.push(f);\<close>\<close>
  "push_file k f [] = []"
| "push_file k f ((k', fs) # m) =
     (if k' = k then (k', fs @ [f]) # m else (k', fs) # push_file k f m)"

definition group_step ::
  "(string \<times> ProcessedFile list) list \<Rightarrow> ProcessedFile \<Rightarrow> (string \<times> ProcessedFile list) list" where
  \<comment> \<open>The body of the grouping loop. The \<open>Map\<close> keeps its keys in the order of their
      insertion: a list of pairs.\<close>
  "group_step m f =
     push_file (category f) f
       (if map_of m (category f) = None then m @ [(category f, [])] else m)"

definition filesByCategory :: "ProcessedFile list \<Rightarrow> (string \<times> ProcessedFile list) list" where
  "filesByCategory entries = foldl group_step [] entries"

definition js_string :: "jsval \<Rightarrow> string" where
  \<comment> \<open>A value in a template literal: an array is joined with commas.\<close>
  "js_string v = (case v of Str s \<Rightarrow> s | Arr a \<Rightarrow> join_with '','' a)"

definition or_default :: "string option \<Rightarrow> string \<Rightarrow> string" where
  \<comment> \<open>\<open>v || d\<close>\<close>
  "or_default v d = (case v of None \<Rightarrow> d | Some s \<Rightarrow> if s = [] then d else s)"

definition file_line :: "string \<Rightarrow> ProcessedFile \<Rightarrow> string" where
  "file_line base f =
     ''- ['' @ js_string (title f) @ '']('' @ base @ url f @ '')''
     @ (if truthy (description f) then '': '' @ js_string (the (description f)) else [])
     @ ''\<newline>''"

fun category_sections ::
  "env \<Rightarrow> string \<Rightarrow> (string \<times> ProcessedFile list) list \<Rightarrow> string option" where
  \<comment> \<open>The loop over the categories; \<open>None\<close> when a sort throws.\<close>
  "category_sections e base [] = Some []"
| "category_sections e base ((cat, fs) # rest) =
     (case sortByTitle e fs of
        None \<Rightarrow> None
      | Some sortedFiles \<Rightarrow>
          (case category_sections e base rest of
             None \<Rightarrow> None
           | Some others \<Rightarrow>
               Some (''## '' @ toUpperCase e (take 1 cat) @ drop 1 cat @ ''\<newline>\<newline>''
                     @ concat (map (file_line base) sortedFiles) @ ''\<newline>'' @ others)))"

definition llms_header :: "string \<Rightarrow> string \<Rightarrow> string" where
  "llms_header name descr =
     ''# '' @ name @ ''\<newline>\<newline>''
     @ ''> '' @ descr @ ''\<newline>\<newline>''
     @ ''This website contains technical content including blog posts, research articles, and application descriptions. ''
     @ ''All content is available in markdown format for easy consumption by language models.\<newline>\<newline>''
     @ ''## Content Structure\<newline>\<newline>''
     @ ''- **Blog Posts**: Technical tutorials and guides\<newline>''
     @ ''- **Research Articles**: Academic and research content\<newline>''
     @ ''- **Apps**: Application descriptions and documentation\<newline>\<newline>''"

definition generateLLMsTxt ::
  "env \<Rightarrow> ProcessedFile list \<Rightarrow> string \<Rightarrow> GenerateOptions \<Rightarrow> fs_state \<Rightarrow> fs_state \<times> (error + unit)" where
  "generateLLMsTxt e fs oDir options st =
     (let name = or_default (projectName options) ''Personal Website & Blog'';
          descr = or_default (projectDescription options)
            ''A collection of blog posts, research articles, and app descriptions covering software development, algorithms, and technical tutorials.'';
          base = or_default (baseUrl options) []
      in case category_sections e base (filesByCategory fs) of
           None \<Rightarrow> (st, Inl SortFailed)
         | Some sections \<Rightarrow>
             writeFileSync (path_join [oDir, ''llms.txt'']) (llms_header name descr @ sections) st)"

section \<open>\<open>generateLlmsFiles\<close>\<close>

definition generateLlmsFiles :: "env \<Rightarrow> GenerateOptions \<Rightarrow> fs_state \<Rightarrow> fs_state \<times> (error + unit)" where
  "generateLlmsFiles e options st =
     (let cDir = path_resolve (cwd e) [cwd e, contentDir options];
          oDir = path_resolve (cwd e) [cwd e, outputDir options]
      in if \<not> existsSync cDir st then (st, Inl (ContentDirNotFound cDir))
         else
           bind (ensure_dir oDir st) (\<lambda>_ st1.
             bind (ensure_dir (path_join [oDir, ''md'']) st1) (\<lambda>_ st2.
               bind (discoverFiles e cDir oDir st2) (\<lambda>fs st3.
                 generateLLMsTxt e fs oDir options st3))))"

section \<open>Shapes of metadata and of paths\<close>

definition quoted_field_at :: "string \<Rightarrow> string \<Rightarrow> string \<Rightarrow> string \<Rightarrow> bool" where
  \<comment> \<open>A quoted string value of the field \<open>key\<close>, in the words of the specification: in the
      text \<open>s\<close>, right after \<open>pre\<close>, stand the name, a colon, white space, a quote
      character, the value \<open>v\<close>, which is not empty and holds no quote character, and a quote
      character.\<close>
  "quoted_field_at key s pre v \<longleftrightarrow>
     (\<exists>ws q q' rest. s = pre @ key @ '':'' @ ws @ q # v @ q' # rest
        \<and> (\<forall>c \<in> set ws. is_space c) \<and> is_quote q \<and> is_quote q'
        \<and> v \<noteq> [] \<and> (\<forall>c \<in> set v. \<not> is_quote c))"

definition first_quoted_field :: "string \<Rightarrow> string \<Rightarrow> string \<Rightarrow> bool" where
  \<comment> \<open>\<open>v\<close> is the quoted string value of the field \<open>key\<close> at the leftmost place of \<open>s\<close> that has
      one.\<close>
  "first_quoted_field key s v \<longleftrightarrow>
     (\<exists>pre. quoted_field_at key s pre v
        \<and> (\<forall>pre' v'. length pre' < length pre \<longrightarrow> \<not> quoted_field_at key s pre' v'))"

definition bracketed_list_at :: "string \<Rightarrow> string \<Rightarrow> string \<Rightarrow> bool" where
  \<comment> \<open>A bracketed list of the field \<open>tags\<close>, in the words of the specification: in the text
      \<open>s\<close>, right after \<open>pre\<close>, stand \<open>tags:\<close>, white space, \<open>[\<close>, the text \<open>inner\<close>, which is not
      empty and holds no \<open>]\<close>, and \<open>]\<close>.\<close>
  "bracketed_list_at s pre inner \<longleftrightarrow>
     (\<exists>ws rest. s = pre @ ''tags:'' @ ws @ CHR ''['' # inner @ CHR '']'' # rest
        \<and> (\<forall>c \<in> set ws. is_space c) \<and> inner \<noteq> [] \<and> CHR '']'' \<notin> set inner)"

definition first_bracketed_list :: "string \<Rightarrow> string \<Rightarrow> bool" where
  \<comment> \<open>\<open>inner\<close> is the inside of the bracketed list at the leftmost place of \<open>s\<close> that has one.\<close>
  "first_bracketed_list s inner \<longleftrightarrow>
     (\<exists>pre. bracketed_list_at s pre inner
        \<and> (\<forall>pre' inner'. length pre' < length pre \<longrightarrow> \<not> bracketed_list_at s pre' inner'))"

definition ends_statement :: "string \<Rightarrow> bool" where
  \<comment> \<open>The text starts with an optional semicolon, white space and a line feed.\<close>
  "ends_statement r \<longleftrightarrow>
     (\<exists>semi ws rest. r = semi @ ws @ CHR 0x0A # rest \<and> (semi = [] \<or> semi = '';'')
        \<and> (\<forall>c \<in> set ws. is_space c))"

definition embedded_object_at :: "string \<Rightarrow> string \<Rightarrow> string \<Rightarrow> bool" where
  \<comment> \<open>An embedded metadata object, in the words of the specification: in the text \<open>c\<close>, right
      after \<open>pre\<close> and at the start of a line, stands the statement
      \<open>export const metadata = {...}\<close>, and \<open>s\<close> is its object text: from the opening brace to
      the first closing brace that ends the statement.\<close>
  "embedded_object_at c pre s \<longleftrightarrow>
     (pre = [] \<or> is_lt (last pre))
     \<and> (\<exists>w1 w2 w3 w4 g rest.
           c = pre @ ''export'' @ w1 @ ''const'' @ w2 @ ''metadata'' @ w3 @ ''='' @ w4 @ s @ rest
           \<and> w1 \<noteq> [] \<and> w2 \<noteq> [] \<and> (\<forall>x \<in> set (w1 @ w2 @ w3 @ w4). is_space x)
           \<and> s = CHR ''{'' # g @ ''}'' \<and> ends_statement rest
           \<and> (\<forall>g' rest'. g @ ''}'' @ rest = g' @ ''}'' @ rest' \<and> length g' < length g
                 \<longrightarrow> \<not> ends_statement rest'))"

definition first_embedded_object :: "string \<Rightarrow> string \<Rightarrow> bool" where
  \<comment> \<open>\<open>s\<close> is the object text of the first statement \<open>export const metadata = {...}\<close> of \<open>c\<close>.\<close>
  "first_embedded_object c s \<longleftrightarrow>
     (\<exists>pre. embedded_object_at c pre s
        \<and> (\<forall>pre' s'. length pre' < length pre \<longrightarrow> \<not> embedded_object_at c pre' s'))"

definition has_locale_suffix :: "string \<Rightarrow> bool" where
  \<comment> \<open>The text ends with a match of \<open>/\.(en|ru)\.(mdx|md)$/\<close>.\<close>
  "has_locale_suffix s =
     (ends_with ''.en.mdx'' s \<or> ends_with ''.ru.mdx'' s \<or> ends_with ''.en.md'' s \<or> ends_with ''.ru.md'' s)"

definition normal_segment :: "string \<Rightarrow> bool" where
  \<comment> \<open>A path segment that names a file or a directory.\<close>
  "normal_segment s = (s \<noteq> [] \<and> s \<noteq> ''.'' \<and> s \<noteq> ''..'')"

definition glob_path :: "string \<Rightarrow> bool" where
  \<comment> \<open>The relative paths that the file enumeration yields for the pattern
      \<open>**/*.{mdx,md}\<close>: every segment names a file or a directory, and the extension is
      \<open>.md\<close> or \<open>.mdx\<close>.\<close>
  "glob_path file =
     (list_all normal_segment (split_on CHR ''/'' file)
      \<and> (ends_with ''.md'' file \<or> ends_with ''.mdx'' file))"

definition first_seen :: "string list \<Rightarrow> string list" where
  \<comment> \<open>The elements of a list in the order of their first occurrences.\<close>
  "first_seen xs = rev (remdups (rev xs))"

section \<open>Properties\<close>

subsection \<open>Grouping by category\<close>

lemma push_file_keys: "map fst (push_file k f m) = map fst m"
  by (induction m) auto

lemma push_file_mset:
  "k \<in> set (map fst m) \<Longrightarrow>
   mset (concat (map snd (push_file k f m))) = mset (concat (map snd m)) + {#f#}"
  by (induction m) fastforce+

lemma push_file_members:
  "(kk, fs) \<in> set (push_file k f m) \<Longrightarrow> g \<in> set fs \<Longrightarrow>
   (\<exists>fs'. (kk, fs') \<in> set m \<and> g \<in> set fs') \<or> (g = f \<and> kk = k)"
proof (induction m)
  case Nil
  then show ?case by simp
next
  case (Cons a m)
  obtain k' fs0 where a: "a = (k', fs0)" by (cases a)
  show ?case
  proof (cases "k' = k")
    case True
    with Cons.prems a have "(kk, fs) = (k, fs0 @ [f]) \<or> (kk, fs) \<in> set m" by simp
    with Cons.prems(2) a True show ?thesis by auto
  next
    case False
    with Cons.prems a have "(kk, fs) = (k', fs0) \<or> (kk, fs) \<in> set (push_file k f m)" by simp
    with Cons.IH Cons.prems(2) a show ?thesis by auto
  qed
qed

lemma group_step_keys:
  "map fst (group_step m f) =
   (if category f \<in> set (map fst m) then map fst m else map fst m @ [category f])"
  by (auto simp: group_step_def push_file_keys map_of_eq_None_iff)

lemma group_step_mset:
  "mset (concat (map snd (group_step m f))) = mset (concat (map snd m)) + {#f#}"
proof (cases "map_of m (category f) = None")
  case True
  have "category f \<in> set (map fst (m @ [(category f, [])]))" by simp
  from push_file_mset [OF this] True show ?thesis by (auto simp: group_step_def)
next
  case False
  then have "category f \<in> set (map fst m)" by (simp add: map_of_eq_None_iff)
  from push_file_mset [OF this] False show ?thesis by (auto simp: group_step_def)
qed

lemma group_step_members:
  assumes "(k, fs) \<in> set (group_step m f)" and "g \<in> set fs"
  shows "(\<exists>fs'. (k, fs') \<in> set m \<and> g \<in> set fs') \<or> (g = f \<and> k = category f)"
proof -
  let ?m1 = "if map_of m (category f) = None then m @ [(category f, [])] else m"
  from assms have "(k, fs) \<in> set (push_file (category f) f ?m1)" by (simp add: group_step_def)
  from push_file_members [OF this assms(2)]
  show ?thesis by (auto split: if_splits)
qed

lemma filesByCategory_snoc:
  "filesByCategory (entries @ [f]) = group_step (filesByCategory entries) f"
  by (simp add: filesByCategory_def)

lemma filesByCategory_keys:
  "distinct (map fst (filesByCategory entries))
   \<and> set (map fst (filesByCategory entries)) = category ` set entries"
proof (induction entries rule: rev_induct)
  case Nil
  then show ?case by (simp add: filesByCategory_def)
next
  case (snoc f entries)
  then show ?case by (auto simp: filesByCategory_snoc group_step_keys)
qed

lemma filesByCategory_mset: "mset (concat (map snd (filesByCategory entries))) = mset entries"
proof (induction entries rule: rev_induct)
  case Nil
  then show ?case by (simp add: filesByCategory_def)
next
  case (snoc f entries)
  then show ?case by (simp add: filesByCategory_snoc group_step_mset)
qed

lemma filesByCategory_members:
  "(k, fs) \<in> set (filesByCategory entries) \<Longrightarrow> g \<in> set fs \<Longrightarrow> category g = k \<and> g \<in> set entries"
proof (induction entries arbitrary: k fs rule: rev_induct)
  case Nil
  then show ?case by (simp add: filesByCategory_def)
next
  case (snoc f entries)
  from snoc.prems have "(k, fs) \<in> set (group_step (filesByCategory entries) f)"
    by (simp add: filesByCategory_snoc)
  from group_step_members [OF this snoc.prems(2)] snoc.IH show ?case by auto
qed

text \<open>
  C8. The grouping of \<open>generateLLMsTxt\<close> is a partition of the manifest: the groups taken
  together hold the entries of the manifest, each as often as the manifest does; no
  category has two groups; every entry of a group has the category of the group, so an
  entry is in the group of its own category and in no other; and the sizes of the groups
  add up to the length of the manifest.
\<close>

theorem filesByCategory_partition:
  "mset (concat (map snd (filesByCategory entries))) = mset entries
   \<and> distinct (map fst (filesByCategory entries))
   \<and> (\<forall>(k, fs) \<in> set (filesByCategory entries). \<forall>f \<in> set fs. category f = k)
   \<and> sum_list (map (length \<circ> snd) (filesByCategory entries)) = length entries"
proof -
  have "length (concat (map snd (filesByCategory entries))) = length entries"
    using filesByCategory_mset [of entries] by (metis size_mset)
  then have "sum_list (map (length \<circ> snd) (filesByCategory entries)) = length entries"
    by (simp add: length_concat)
  with filesByCategory_mset filesByCategory_keys filesByCategory_members
  show ?thesis by blast
qed

text \<open>
  The partition of a manifest of three entries in two categories: the group of \<open>a\<close> holds
  the first and the third entry, the group of \<open>b\<close> the second, and the sizes add up to 3.
\<close>

theorem filesByCategory_partition_witness:
  "filesByCategory
     [\<lparr>relativePath = ''a/x.md'', url = ''/md/a/x.md'', title = Str ''X'', description = None, category = ''a''\<rparr>,
      \<lparr>relativePath = ''b/y.md'', url = ''/md/b/y.md'', title = Str ''Y'', description = None, category = ''b''\<rparr>,
      \<lparr>relativePath = ''a/z.md'', url = ''/md/a/z.md'', title = Str ''Z'', description = None, category = ''a''\<rparr>]
   = [(''a'',
       [\<lparr>relativePath = ''a/x.md'', url = ''/md/a/x.md'', title = Str ''X'', description = None, category = ''a''\<rparr>,
        \<lparr>relativePath = ''a/z.md'', url = ''/md/a/z.md'', title = Str ''Z'', description = None, category = ''a''\<rparr>]),
      (''b'',
       [\<lparr>relativePath = ''b/y.md'', url = ''/md/b/y.md'', title = Str ''Y'', description = None, category = ''b''\<rparr>])]
   \<and> sum_list (map (length \<circ> snd) (filesByCategory
     [\<lparr>relativePath = ''a/x.md'', url = ''/md/a/x.md'', title = Str ''X'', description = None, category = ''a''\<rparr>,
      \<lparr>relativePath = ''b/y.md'', url = ''/md/b/y.md'', title = Str ''Y'', description = None, category = ''b''\<rparr>,
      \<lparr>relativePath = ''a/z.md'', url = ''/md/a/z.md'', title = Str ''Z'', description = None, category = ''a''\<rparr>])) = 3"
  using filesByCategory_partition [of
     "[\<lparr>relativePath = ''a/x.md'', url = ''/md/a/x.md'', title = Str ''X'', description = None, category = ''a''\<rparr>,
      \<lparr>relativePath = ''b/y.md'', url = ''/md/b/y.md'', title = Str ''Y'', description = None, category = ''b''\<rparr>,
      \<lparr>relativePath = ''a/z.md'', url = ''/md/a/z.md'', title = Str ''Z'', description = None, category = ''a''\<rparr>]"]
  by (simp add: filesByCategory_def group_step_def)

subsection \<open>The content directory\<close>

text \<open>
  C9. When the resolved content directory does not exist, \<open>generateLlmsFiles\<close> ends with the
  error that names it, and the file system is the one it started in: no directory and no
  file was created, and no read, write or directory creation was attempted.
\<close>

theorem generateLlmsFiles_missing_contentDir:
  assumes "\<not> existsSync (path_resolve (cwd e) [cwd e, contentDir options]) st"
  shows "generateLlmsFiles e options st
         = (st, Inl (ContentDirNotFound (path_resolve (cwd e) [cwd e, contentDir options])))"
  using assms by (simp add: generateLlmsFiles_def Let_def)

text \<open>
  In the working directory \<open>/w\<close>, with no directory \<open>/w/docs\<close>: the run ends with the error
  for \<open>/w/docs\<close> and an empty log.
\<close>

theorem generateLlmsFiles_missing_contentDir_witness:
  "generateLlmsFiles
     \<lparr>cwd = ''/w'', glob = (\<lambda>d st. [''a.md'']), toUpperCase = (\<lambda>s. s), sortByTitle = Some\<rparr>
     \<lparr>contentDir = ''docs'', outputDir = ''out'', baseUrl = None, projectName = None,
      projectDescription = None\<rparr>
     \<lparr>dirs = {''/'', ''/w''}, files = Map.empty, log = []\<rparr>
   = (\<lparr>dirs = {''/'', ''/w''}, files = Map.empty, log = []\<rparr>, Inl (ContentDirNotFound ''/w/docs''))"
  using generateLlmsFiles_missing_contentDir [of
      "\<lparr>cwd = ''/w'', glob = (\<lambda>d st. [''a.md'']), toUpperCase = (\<lambda>s. s), sortByTitle = Some\<rparr>"
      "\<lparr>contentDir = ''docs'', outputDir = ''out'', baseUrl = None, projectName = None,
        projectDescription = None\<rparr>"
      "\<lparr>dirs = {''/'', ''/w''}, files = Map.empty, log = []\<rparr>"]
  by (simp add: existsSync_def path_resolve_def normalizeString_def)

subsection \<open>Files at the content root\<close>

text \<open>
  C1. For the file \<open>readme.md\<close> at the content root, \<open>parts[0]\<close> is the file name itself,
  which is not empty: the category is \<open>readme.md\<close>, not \<open>other\<close>.
\<close>

theorem category_of_root_file: "category_of ''readme.md'' = ''readme.md''"
  by (simp add: category_of_def)

text \<open>
  C2. For the file \<open>index.md\<close> at the content root, \<open>path.dirname\<close> gives \<open>.\<close>, whose base
  name \<open>.\<close> is not empty: the file name is replaced, and the path becomes \<open>..md\<close>.
\<close>

theorem urlPath_of_root_index: "urlPath_of ''index.md'' = ''..md''"
  by (simp add: urlPath_of_def md_ext_def strip_locale_def ends_with_def chop_def path_dirname_def
      path_basename_ext_def path_basename_def last_segment_def path_join_def path_normalize_def
      normalizeString_def)

subsection \<open>Lists in the block header\<close>

text \<open>
  C4. On the same text with the header line \<open>tags: [a, b]\<close>, \<open>processMDXFile\<close> stores the list
  of \<open>a\<close> and \<open>b\<close>, and \<open>processMDFile\<close> stores the string \<open>[a, b]\<close>.
\<close>

theorem processMDFile_keeps_list_text:
  "metadata (processMDFile ''---\<newline>tags: [a, b]\<newline>---\<newline>Body'') ''tags'' = Some (Str ''[a, b]'')
   \<and> metadata (processMDXFile ''---\<newline>tags: [a, b]\<newline>---\<newline>Body'') ''tags'' = Some (Arr [''a'', ''b''])"
  by (simp add: processMDFile_def processMDXFile_def frontmatterMatch_def starts_with_def closing_here_def
      is_space_def md_line_def mdx_line_def set_key_def line_match_def is_word_def is_upper_def
      is_lower_def is_digit_def is_lt_def trim_def unquote_def is_quote_def ends_with_def parse_list_def
      strip_quotes_def)

subsection \<open>Matches at the start of a line\<close>

lemma first_line_match_SomeD:
  "first_line_match m b s = Some r \<Longrightarrow>
   \<exists>pre t. s = pre @ t \<and> (if pre = [] then b else is_lt (last pre)) \<and> m t = Some r
     \<and> (\<forall>pre' t'. s = pre' @ t' \<and> length pre' < length pre
            \<and> (if pre' = [] then b else is_lt (last pre')) \<longrightarrow> m t' = None)"
proof (induction s arbitrary: b)
  case Nil
  then show ?case by (auto split: if_splits)
next
  case (Cons c cs)
  show ?case
  proof (cases "b \<and> m (c # cs) \<noteq> None")
    case True
    with Cons.prems have "m (c # cs) = Some r" by auto
    with True show ?thesis by (rule_tac x = "[]" in exI, rule_tac x = "c # cs" in exI) simp
  next
    case False
    with Cons.prems have "first_line_match m (is_lt c) cs = Some r" by (auto split: option.splits if_splits)
    from Cons.IH [OF this] obtain pre t where
      s: "cs = pre @ t" and bol: "if pre = [] then is_lt c else is_lt (last pre)" and
      mt: "m t = Some r" and
      least: "\<forall>pre' t'. cs = pre' @ t' \<and> length pre' < length pre
            \<and> (if pre' = [] then is_lt c else is_lt (last pre')) \<longrightarrow> m t' = None"
      by blast
    have least': "\<forall>pre' t'. c # cs = pre' @ t' \<and> length pre' < length (c # pre)
            \<and> (if pre' = [] then b else is_lt (last pre')) \<longrightarrow> m t' = None"
    proof (intro allI impI)
      fix pre' t'
      assume a: "c # cs = pre' @ t' \<and> length pre' < length (c # pre)
            \<and> (if pre' = [] then b else is_lt (last pre'))"
      show "m t' = None"
      proof (cases pre')
        case Nil
        with a False show ?thesis by auto
      next
        case (Cons d ds)
        with a have "cs = ds @ t'" "length ds < length pre" "d = c" by auto
        moreover from a Cons have "if ds = [] then is_lt c else is_lt (last ds)" by (auto split: if_splits)
        ultimately show ?thesis using least by blast
      qed
    qed
    have bol': "if c # pre = [] then b else is_lt (last (c # pre))"
      using bol by (auto split: if_splits)
    have s': "c # cs = (c # pre) @ t" using s by simp
    from s' bol' mt least' show ?thesis by blast
  qed
qed

lemma first_line_match_NoneD:
  "first_line_match m b s = None \<Longrightarrow> s = pre @ t \<Longrightarrow> (if pre = [] then b else is_lt (last pre))
   \<Longrightarrow> m t = None"
proof (induction s arbitrary: b pre)
  case Nil
  then show ?case by (auto split: if_splits)
next
  case (Cons c cs)
  show ?case
  proof (cases pre)
    case Nil
    with Cons.prems show ?thesis by (auto split: option.splits if_splits)
  next
    case (Cons d ds)
    with Cons.prems have "first_line_match m (is_lt c) cs = None" "cs = ds @ t" "d = c"
      by (auto split: option.splits if_splits)
    moreover from Cons.prems Cons have "if ds = [] then is_lt c else is_lt (last ds)"
      by (auto split: if_splits)
    ultimately show ?thesis using Cons.IH by blast
  qed
qed

lemma bol_True: "(if pre = [] then True else is_lt (last pre)) \<longleftrightarrow> (pre = [] \<or> is_lt (last pre))"
  by simp

lemma first_line_match_True_SomeD:
  "first_line_match m True s = Some r \<Longrightarrow>
   \<exists>pre t. s = pre @ t \<and> (pre = [] \<or> is_lt (last pre)) \<and> m t = Some r
     \<and> (\<forall>pre' t'. s = pre' @ t' \<and> length pre' < length pre
            \<and> (pre' = [] \<or> is_lt (last pre')) \<longrightarrow> m t' = None)"
  using first_line_match_SomeD [of m True s r] unfolding bol_True .

lemma first_line_match_True_NoneD:
  "first_line_match m True s = None \<Longrightarrow> s = pre @ t \<Longrightarrow> pre = [] \<or> is_lt (last pre)
   \<Longrightarrow> m t = None"
  using first_line_match_NoneD [of m True s pre t] unfolding bol_True .

lemma dropWhile_all_iff: "(\<forall>x \<in> set (dropWhile P xs). P x) \<longleftrightarrow> (\<forall>x \<in> set xs. P x)"
proof
  assume a: "\<forall>x \<in> set (dropWhile P xs). P x"
  have "dropWhile P xs = []"
  proof (rule ccontr)
    assume n: "dropWhile P xs \<noteq> []"
    then have "\<not> P (hd (dropWhile P xs))" by (rule hd_dropWhile)
    moreover from n have "hd (dropWhile P xs) \<in> set (dropWhile P xs)" by simp
    ultimately show False using a by blast
  qed
  then show "\<forall>x \<in> set xs. P x" by (simp add: dropWhile_eq_Nil_conv)
next
  assume "\<forall>x \<in> set xs. P x"
  then show "\<forall>x \<in> set (dropWhile P xs). P x" by (auto dest: set_dropWhileD)
qed

lemma trim_empty_iff: "trim s = [] \<longleftrightarrow> (\<forall>c \<in> set s. is_space c)"
proof -
  have "trim s = [] \<longleftrightarrow> (\<forall>x \<in> set (dropWhile is_space s). is_space x)"
    by (simp add: trim_def dropWhile_eq_Nil_conv)
  then show ?thesis by (simp add: dropWhile_all_iff)
qed

lemma set_trim: "set (trim s) \<subseteq> set s"
  by (auto simp: trim_def dest!: set_dropWhileD)

lemma paragraph_here_SomeD:
  "paragraph_here t = Some g \<Longrightarrow>
   \<exists>c cs. t = c # cs \<and> c \<noteq> CHR 0x0A \<and> c \<noteq> CHR ''#''
     \<and> 50 \<le> length (takeWhile (\<lambda>x. \<not> is_lt x) cs)
     \<and> g = c # take 200 (takeWhile (\<lambda>x. \<not> is_lt x) cs)"
  by (auto simp: paragraph_here_def split: list.splits if_splits)

lemma paragraph_here_None_iff:
  "paragraph_here (c # cs) = None \<longleftrightarrow>
   (c = CHR 0x0A \<or> c = CHR ''#'' \<or> length (takeWhile (\<lambda>x. \<not> is_lt x) cs) < 50)"
  by (auto simp: paragraph_here_def)

lemma paragraph_no_newline:
  "paragraph_here t = Some g \<Longrightarrow> CHR 0x0A \<notin> set g"
  by (auto simp: is_lt_def dest!: paragraph_here_SomeD in_set_takeD set_takeWhileD)

lemma map_newline_id: "CHR 0x0A \<notin> set s \<Longrightarrow> map (\<lambda>c. if c = CHR 0x0A then CHR '' '' else c) s = s"
  by (induction s) auto

lemma paragraph_part:
  "paragraph_here t = Some g \<Longrightarrow> \<exists>rest. t = g @ rest"
proof -
  assume "paragraph_here t = Some g"
  then obtain c cs where t: "t = c # cs" and g: "g = c # take 200 (takeWhile (\<lambda>x. \<not> is_lt x) cs)"
    by (auto dest: paragraph_here_SomeD)
  have "cs = take 200 (takeWhile (\<lambda>x. \<not> is_lt x) cs)
             @ (drop 200 (takeWhile (\<lambda>x. \<not> is_lt x) cs) @ dropWhile (\<lambda>x. \<not> is_lt x) cs)"
    by (metis append_assoc append_take_drop_id takeWhile_dropWhile_id)
  with t g show ?thesis by (metis append_Cons)
qed


subsection \<open>\<open>extractDescription\<close>\<close>

lemma extractDescription_body:
  assumes "\<not> truthy (m ''description'')"
  shows "extractDescription m body =
         (case first_line_match paragraph_here True body of
            Some g \<Rightarrow> Some (Str (take 200 (trim g))) | None \<Rightarrow> None)"
proof (cases "first_line_match paragraph_here True body")
  case None
  with assms show ?thesis by (simp add: extractDescription_def)
next
  case (Some g)
  then obtain t where "paragraph_here t = Some g" by (blast dest: first_line_match_SomeD)
  then have "CHR 0x0A \<notin> set g" by (rule paragraph_no_newline)
  with set_trim [of g] have "CHR 0x0A \<notin> set (trim g)" by blast
  then have "map (\<lambda>c. if c = CHR 0x0A then CHR '' '' else c) (trim g) = trim g"
    by (rule map_newline_id)
  with assms Some show ?thesis by (simp add: extractDescription_def)
qed





subsection \<open>\<open>extractTitle\<close>\<close>

lemma is_lt_space: "is_lt c \<Longrightarrow> is_space c"
  by (auto simp: is_lt_def is_space_def)

lemma spaces_then_text_trimmed:
  "r \<noteq> [] \<Longrightarrow> \<not> is_space (last r) \<Longrightarrow>
   spaces_then_text r = Some (takeWhile (\<lambda>x. \<not> is_lt x) (dropWhile is_space r))"
proof (induction r)
  case Nil
  then show ?case by simp
next
  case (Cons c cs)
  show ?case
  proof (cases "is_space c")
    case True
    with Cons.prems have "cs \<noteq> []" by auto
    with Cons.prems have "\<not> is_space (last cs)" by simp
    from Cons.IH [OF \<open>cs \<noteq> []\<close> this] True show ?thesis by simp
  next
    case False
    then have "\<not> is_lt c" using is_lt_space by blast
    with False show ?thesis by simp
  qed
qed

lemma heading_text_nonempty:
  assumes "r \<noteq> []" and "\<not> is_space (last r)"
  shows "trim (takeWhile (\<lambda>x. \<not> is_lt x) (dropWhile is_space r)) \<noteq> []"
proof -
  from assms have "last r \<in> set r" "\<not> is_space (last r)" by simp_all
  then have ne: "dropWhile is_space r \<noteq> []" by (auto simp: dropWhile_eq_Nil_conv)
  then obtain d ds where d: "dropWhile is_space r = d # ds" by (cases "dropWhile is_space r") auto
  from ne have "\<not> is_space (hd (dropWhile is_space r))" by (rule hd_dropWhile)
  with d have nd: "\<not> is_space d" by simp
  then have "\<not> is_lt d" using is_lt_space by blast
  with d have "d \<in> set (takeWhile (\<lambda>x. \<not> is_lt x) (dropWhile is_space r))" by simp
  with nd show ?thesis by (auto simp: trim_empty_iff)
qed

lemma h1_here_SomeD:
  "h1_here t = Some g \<Longrightarrow> \<exists>w r. t = CHR ''#'' # w # r \<and> is_space w \<and> spaces_then_text r = Some g"
  by (auto simp: h1_here_def split: list.splits if_splits)

lemma length_capitalize: "length (capitalize b s) = length s"
  by (induction s arbitrary: b) auto

lemma last_dot_SomeD: "last_dot xs = Some e \<Longrightarrow> \<exists>rest. xs = e @ rest"
  by (induction xs arbitrary: e) (auto split: if_splits option.splits)

lemma length_last_segment: "length (last_segment p) \<le> length p"
proof -
  have "length (last_segment p) \<le> length (dropWhile (\<lambda>c. c = CHR ''/'') (rev p))"
    by (simp add: last_segment_def length_takeWhile_le)
  also have "\<dots> \<le> length (rev p)" by (rule length_dropWhile_le)
  finally show ?thesis by simp
qed

lemma basename_without_ext_nonempty:
  assumes "last_segment p \<noteq> []"
  shows "path_basename_ext p (path_extname p) \<noteq> []"
proof (cases "path_extname p = []")
  case True
  with assms show ?thesis by (simp add: path_basename_ext_def path_basename_def)
next
  case False
  let ?seg = "last_segment p"
  from False obtain e where e: "last_dot (rev ?seg) = Some e" and
    n: "length e \<noteq> length ?seg" and x: "path_extname p = rev e"
    by (auto simp: path_extname_def Let_def split: option.splits if_splits)
  from last_dot_SomeD [OF e] obtain rest where r: "rev ?seg = e @ rest" by blast
  then have seg: "?seg = rev rest @ rev e" by (metis rev_append rev_rev_ident)
  have rest: "rest \<noteq> []"
  proof
    assume "rest = []"
    with r have "rev ?seg = e" by simp
    then have "length (rev ?seg) = length e" by simp
    with n show False by simp
  qed
  from seg have ew: "ends_with (rev e) ?seg" by (simp add: ends_with_def)
  from seg rest have lt: "length (rev e) < length ?seg" by simp
  with length_last_segment [of p] have lp: "length (rev e) < length p" by simp
  from seg rest have ne: "?seg \<noteq> rev e" by auto
  from seg have "chop (length (rev e)) ?seg = rev rest" by (simp add: chop_def)
  with False x ew ne lp rest show ?thesis
    by (auto simp: path_basename_ext_def Let_def)
qed

lemma filename_title_nonempty:
  assumes "last_segment p \<noteq> []"
  shows "filename_title p \<noteq> []"
proof -
  have "length (filename_title p) = length (path_basename_ext p (path_extname p))"
    by (simp add: filename_title_def Let_def length_capitalize)
  moreover from assms have "length (path_basename_ext p (path_extname p)) \<noteq> 0"
    using basename_without_ext_nonempty by simp
  ultimately show ?thesis by auto
qed

subsection \<open>The path of the output file\<close>

lemma ends_withD: "ends_with suf s \<Longrightarrow> \<exists>stem. s = stem @ suf"
proof -
  assume "ends_with suf s"
  then have "take (length suf) (rev s) = rev suf" by (simp add: ends_with_def)
  then have "rev s = rev suf @ drop (length suf) (rev s)" by (metis append_take_drop_id)
  then have "s = rev (drop (length suf) (rev s)) @ suf" by (metis rev_append rev_rev_ident)
  then show ?thesis ..
qed

lemma ends_with_append [simp]: "ends_with suf (stem @ suf)"
  by (simp add: ends_with_def)

lemma chop_append [simp]: "chop (length suf) (stem @ suf) = stem"
  by (simp add: chop_def)

lemma split_on_nonempty [simp]: "split_on c s \<noteq> []"
  by (induction s) (auto split: list.splits)

lemma split_on_no_sep: "c \<notin> set s \<Longrightarrow> split_on c s = [s]"
  by (induction s) auto

lemma split_on_append:
  "c \<notin> set e \<Longrightarrow> split_on c (s @ e) = butlast (split_on c s) @ [last (split_on c s) @ e]"
proof (induction s)
  case Nil
  then show ?case by (simp add: split_on_no_sep)
next
  case (Cons x xs)
  then show ?case by (cases "split_on c xs") (auto split: list.splits)
qed

lemma split_on_snoc_segment:
  "c \<notin> set g \<Longrightarrow> split_on c (d @ c # g) = split_on c d @ [g]"
proof (induction d)
  case Nil
  then show ?case by (simp add: split_on_no_sep)
next
  case (Cons x xs)
  then show ?case by (cases "split_on c xs") (auto split: list.splits)
qed

lemma join_with_Cons: "join_with sep ((x # p) # ps) = x # join_with sep (p # ps)"
  by (cases ps) auto

lemma join_split: "join_with [c] (split_on c s) = s"
proof (induction s)
  case Nil
  then show ?case by simp
next
  case (Cons x xs)
  obtain p ps where p: "split_on c xs = p # ps" by (cases "split_on c xs") auto
  with Cons show ?case by (auto simp: join_with_Cons)
qed

lemma last_slash_split:
  "CHR ''/'' \<in> set s \<Longrightarrow> \<exists>d f. s = d @ CHR ''/'' # f \<and> CHR ''/'' \<notin> set f"
  by (rule split_list_last)


lemma normalize_normal:
  "list_all normal_segment segs \<Longrightarrow> foldl (normalize_step b) acc segs = rev segs @ acc"
  by (induction segs arbitrary: acc) (auto simp: normal_segment_def)

lemma normal_path_ends:
  assumes "list_all normal_segment (split_on CHR ''/'' p)"
  shows "p \<noteq> [] \<and> hd p \<noteq> CHR ''/'' \<and> last p \<noteq> CHR ''/''"
proof -
  have ne: "p \<noteq> []" using assms by (auto simp: normal_segment_def)
  have h: "hd p \<noteq> CHR ''/''"
  proof
    assume "hd p = CHR ''/''"
    with ne obtain cs where "p = CHR ''/'' # cs" by (cases p) auto
    with assms show False by (simp add: normal_segment_def)
  qed
  have l: "last p \<noteq> CHR ''/''"
  proof
    assume "last p = CHR ''/''"
    with ne have "p = butlast p @ CHR ''/'' # []" by (metis append_butlast_last_id)
    then have "split_on CHR ''/'' p = split_on CHR ''/'' (butlast p) @ [[]]"
      by (metis empty_iff list.set(1) split_on_snoc_segment)
    with assms show False by (simp add: normal_segment_def)
  qed
  from ne h l show ?thesis by simp
qed

lemma path_normalize_normal:
  assumes "list_all normal_segment (split_on CHR ''/'' p)"
  shows "path_normalize p = p"
proof -
  from normal_path_ends [OF assms] have e: "p \<noteq> []" "hd p \<noteq> CHR ''/''" "last p \<noteq> CHR ''/''"
    by simp_all
  have "normalizeString p True = p"
    by (simp add: normalizeString_def normalize_normal [OF assms] join_split [of "CHR ''/''", simplified])
  with e show ?thesis by (simp add: path_normalize_def)
qed

lemma path_join_normal:
  assumes d: "list_all normal_segment (split_on CHR ''/'' d)"
      and g: "normal_segment g" "CHR ''/'' \<notin> set g"
  shows "path_join [d, g] = d @ CHR ''/'' # g"
proof -
  from normal_path_ends [OF d] have "d \<noteq> []" by simp
  moreover from g have "g \<noteq> []" by (simp add: normal_segment_def)
  ultimately have j: "join_with ''/'' (filter (\<lambda>a. a \<noteq> []) [d, g]) = d @ CHR ''/'' # g" by simp
  have "list_all normal_segment (split_on CHR ''/'' (d @ CHR ''/'' # g))"
    using d g by (simp add: split_on_snoc_segment)
  from path_normalize_normal [OF this] j show ?thesis by (simp add: path_join_def)
qed

lemma dirname_scan_none: "CHR ''/'' \<notin> set xs \<Longrightarrow> dirname_scan xs m = None"
  by (induction xs arbitrary: m) auto

lemma dirname_scan_found:
  "CHR ''/'' \<notin> set xs \<Longrightarrow> xs \<noteq> [] \<or> \<not> m \<Longrightarrow>
   dirname_scan (xs @ CHR ''/'' # rest) m = Some (rev rest)"
  by (induction xs arbitrary: m) auto

lemma path_dirname_file: "f \<noteq> [] \<Longrightarrow> CHR ''/'' \<notin> set f \<Longrightarrow> path_dirname f = ''.''"
  by (cases f) (auto simp: path_dirname_def dirname_scan_none)

lemma path_dirname_in_dir:
  assumes "d \<noteq> []" "hd d \<noteq> CHR ''/''" "f \<noteq> []" "CHR ''/'' \<notin> set f"
  shows "path_dirname (d @ CHR ''/'' # f) = d"
proof -
  from assms obtain c0 cs where d: "d = c0 # cs" "c0 \<noteq> CHR ''/''" by (cases d) auto
  have "dirname_scan (rev f @ CHR ''/'' # rev cs) True = Some (rev (rev cs))"
    using assms by (intro dirname_scan_found) auto
  with d show ?thesis by (simp add: path_dirname_def)
qed

lemma last_segment_file:
  assumes "f \<noteq> []" "CHR ''/'' \<notin> set f"
  shows "last_segment f = f"
proof -
  from assms have "hd (rev f) \<noteq> CHR ''/''" by (metis hd_rev last_in_set)
  with assms have a: "dropWhile (\<lambda>c. c = CHR ''/'') (rev f) = rev f" by (cases "rev f") auto
  from assms have b: "takeWhile (\<lambda>c. c \<noteq> CHR ''/'') (rev f) = rev f"
    by (auto simp: takeWhile_eq_all_conv)
  show ?thesis unfolding last_segment_def a b by simp
qed

lemma last_segment_in_dir:
  assumes "f \<noteq> []" "CHR ''/'' \<notin> set f"
  shows "last_segment (d @ CHR ''/'' # f) = f"
proof -
  from assms have "hd (rev f) \<noteq> CHR ''/''" by (metis hd_rev last_in_set)
  with assms have a: "dropWhile (\<lambda>c. c = CHR ''/'') (rev f @ CHR ''/'' # rev d) = rev f @ CHR ''/'' # rev d"
    by (cases "rev f") auto
  from assms have b: "takeWhile (\<lambda>c. c \<noteq> CHR ''/'') (rev f @ CHR ''/'' # rev d) = rev f"
    by (auto simp: takeWhile_tail takeWhile_eq_all_conv)
  have r: "rev (d @ CHR ''/'' # f) = rev f @ CHR ''/'' # rev d" by simp
  show ?thesis unfolding last_segment_def r a b by simp
qed

lemma normal_path_cases:
  assumes "list_all normal_segment (split_on CHR ''/'' p)"
  shows "(normal_segment p \<and> CHR ''/'' \<notin> set p)
       \<or> (\<exists>d f. p = d @ CHR ''/'' # f \<and> list_all normal_segment (split_on CHR ''/'' d)
              \<and> normal_segment f \<and> CHR ''/'' \<notin> set f)"
proof (cases "CHR ''/'' \<in> set p")
  case False
  with assms show ?thesis by (simp add: split_on_no_sep)
next
  case True
  then obtain d f where p: "p = d @ CHR ''/'' # f" "CHR ''/'' \<notin> set f"
    by (blast dest: last_slash_split)
  with assms have "list_all normal_segment (split_on CHR ''/'' d) \<and> normal_segment f"
    by (simp add: split_on_snoc_segment)
  with p show ?thesis by blast
qed


lemma long_segment_normal: "3 \<le> length s \<Longrightarrow> normal_segment s"
  by (auto simp: normal_segment_def)

lemma md_ext_strip_locale_fix:
  assumes "ends_with ''.md'' q" and "\<not> has_locale_suffix q"
  shows "md_ext (strip_locale q) = q"
proof -
  from assms(1) obtain stem where q: "q = stem @ ''.md''" by (blast dest: ends_withD)
  from assms(2) have "strip_locale q = q" by (simp add: strip_locale_def has_locale_suffix_def)
  moreover have "md_ext (stem @ ''.md'') = stem @ ''.md''"
    by (simp add: md_ext_def ends_with_def chop_def)
  ultimately show ?thesis using q by simp
qed

lemma normalized_form:
  assumes "ends_with ''.md'' file \<or> ends_with ''.mdx'' file"
  shows "\<exists>stem ext. file = stem @ ext \<and> CHR ''/'' \<notin> set ext
           \<and> md_ext (strip_locale file) = stem @ ''.md''"
proof -
  consider (a) "ends_with ''.en.mdx'' file" | (b) "ends_with ''.ru.mdx'' file"
    | (c) "ends_with ''.en.md'' file" | (d) "ends_with ''.ru.md'' file"
    | (e) "\<not> has_locale_suffix file" "ends_with ''.mdx'' file"
    | (f) "\<not> has_locale_suffix file" "ends_with ''.md'' file"
    using assms by (auto simp: has_locale_suffix_def)
  then show ?thesis
  proof cases
    case a
    then obtain stem where f: "file = stem @ ''.en.mdx''" by (blast dest: ends_withD)
    have "md_ext (strip_locale (stem @ ''.en.mdx'')) = stem @ ''.md''"
      by (simp add: strip_locale_def md_ext_def ends_with_def chop_def)
    with f show ?thesis by (intro exI [of _ stem] exI [of _ "''.en.mdx''"]) simp
  next
    case b
    then obtain stem where f: "file = stem @ ''.ru.mdx''" by (blast dest: ends_withD)
    have "md_ext (strip_locale (stem @ ''.ru.mdx'')) = stem @ ''.md''"
      by (simp add: strip_locale_def md_ext_def ends_with_def chop_def)
    with f show ?thesis by (intro exI [of _ stem] exI [of _ "''.ru.mdx''"]) simp
  next
    case c
    then obtain stem where f: "file = stem @ ''.en.md''" by (blast dest: ends_withD)
    have "md_ext (strip_locale (stem @ ''.en.md'')) = stem @ ''.md''"
      by (simp add: strip_locale_def md_ext_def ends_with_def chop_def)
    with f show ?thesis by (intro exI [of _ stem] exI [of _ "''.en.md''"]) simp
  next
    case d
    then obtain stem where f: "file = stem @ ''.ru.md''" by (blast dest: ends_withD)
    have "md_ext (strip_locale (stem @ ''.ru.md'')) = stem @ ''.md''"
      by (simp add: strip_locale_def md_ext_def ends_with_def chop_def)
    with f show ?thesis by (intro exI [of _ stem] exI [of _ "''.ru.md''"]) simp
  next
    case e
    then obtain stem where f: "file = stem @ ''.mdx''" by (blast dest: ends_withD)
    from e have "strip_locale file = file" by (simp add: strip_locale_def has_locale_suffix_def)
    moreover have "md_ext (stem @ ''.mdx'') = stem @ ''.md''"
      by (simp add: md_ext_def ends_with_def chop_def)
    ultimately show ?thesis using f by (intro exI [of _ stem] exI [of _ "''.mdx''"]) simp
  next
    case f
    then obtain stem where f': "file = stem @ ''.md''" by (blast dest: ends_withD)
    from f have "md_ext (strip_locale file) = file" by (simp add: md_ext_strip_locale_fix)
    with f' show ?thesis by (intro exI [of _ stem] exI [of _ "''.md''"]) simp
  qed
qed

lemma normalized_normal:
  assumes "glob_path file"
  shows "list_all normal_segment (split_on CHR ''/'' (md_ext (strip_locale file)))
       \<and> ends_with ''.md'' (md_ext (strip_locale file))"
proof -
  from assms have n: "list_all normal_segment (split_on CHR ''/'' file)"
    and x: "ends_with ''.md'' file \<or> ends_with ''.mdx'' file" by (simp_all add: glob_path_def)
  from normalized_form [OF x] obtain stem ext where
    f: "file = stem @ ext" and e: "CHR ''/'' \<notin> set ext" and u: "md_ext (strip_locale file) = stem @ ''.md''"
    by blast
  from n f e have "list_all normal_segment (butlast (split_on CHR ''/'' stem))"
    by (simp add: split_on_append)
  moreover have "normal_segment (last (split_on CHR ''/'' stem) @ ''.md'')"
    by (rule long_segment_normal) simp
  ultimately have "list_all normal_segment (split_on CHR ''/'' (stem @ ''.md''))"
    by (simp add: split_on_append)
  with u show ?thesis by simp
qed

lemma basename_of_normal:
  assumes "list_all normal_segment (split_on CHR ''/'' d)"
  shows "normal_segment (path_basename d) \<and> CHR ''/'' \<notin> set (path_basename d)"
  using normal_path_cases [OF assms]
  by (auto simp: path_basename_def last_segment_file last_segment_in_dir normal_segment_def)

lemma urlPath_of_fixed:
  assumes "ends_with ''.md'' q" and "\<not> has_locale_suffix q"
      and "path_join [path_dirname q, path_basename (path_dirname q) @ ''.md''] = q
           \<or> path_basename_ext q ''.md'' \<notin> {''index'', ''_index''}"
  shows "urlPath_of q = q"
  using assms(3) by (auto simp: urlPath_of_def Let_def md_ext_strip_locale_fix [OF assms(1,2)])


lemma root_index_names:
  assumes "CHR ''/'' \<notin> set u" and "ends_with ''.md'' u"
      and "path_basename_ext u ''.md'' \<in> {''index'', ''_index''}"
  shows "u = ''index.md'' \<or> u = ''_index.md''"
proof -
  from assms(2) obtain stem where u: "u = stem @ ''.md''" by (blast dest: ends_withD)
  with assms(1) have "last_segment u = u" by (intro last_segment_file) auto
  with u have "path_basename_ext u ''.md'' = (if stem = [] then [] else stem)"
    by (simp add: path_basename_ext_def chop_def)
  with assms(3) u show ?thesis by (auto split: if_splits)
qed

lemma alias_of_root_index:
  "path_join [path_dirname ''index.md'', path_basename (path_dirname ''index.md'') @ ''.md''] = ''..md''
   \<and> path_join [path_dirname ''_index.md'', path_basename (path_dirname ''_index.md'') @ ''.md''] = ''..md''
   \<and> path_basename (path_dirname ''index.md'') \<noteq> []
   \<and> path_basename (path_dirname ''_index.md'') \<noteq> []"
  by (simp add: path_dirname_def path_basename_def last_segment_def path_join_def path_normalize_def
      normalizeString_def)

lemma urlPath_of_dots: "urlPath_of ''..md'' = ''..md''"
  by (simp add: urlPath_of_def md_ext_def strip_locale_def ends_with_def chop_def path_dirname_def
      path_basename_ext_def path_basename_def last_segment_def)

text \<open>
  C7, as amended. For a relative path as the file enumeration yields it, the path that
  \<open>discoverFiles\<close> computes is a fixed point of the computation whenever that path itself
  does not end with a locale suffix: computing the path of the output again changes
  nothing.
\<close>

theorem urlPath_of_idempotent:
  assumes "glob_path file" and "\<not> has_locale_suffix (urlPath_of file)"
  shows "urlPath_of (urlPath_of file) = urlPath_of file"
proof -
  define u where "u = md_ext (strip_locale file)"
  from normalized_normal [OF assms(1)] have n: "list_all normal_segment (split_on CHR ''/'' u)"
    and x: "ends_with ''.md'' u" by (simp_all add: u_def)
  have q: "urlPath_of file =
        (if path_basename_ext u ''.md'' \<in> {''index'', ''_index''} \<and> path_basename (path_dirname u) \<noteq> []
         then path_join [path_dirname u, path_basename (path_dirname u) @ ''.md''] else u)"
    by (auto simp: urlPath_of_def Let_def u_def)
  show ?thesis
  proof (cases "path_basename_ext u ''.md'' \<in> {''index'', ''_index''}")
    case False
    with q have "urlPath_of file = u" by simp
    with assms(2) x False show ?thesis by (simp add: urlPath_of_fixed)
  next
    case True
    from normal_path_cases [OF n] show ?thesis
    proof (elim disjE exE conjE)
      assume "CHR ''/'' \<notin> set u"
      from root_index_names [OF this x True] q True alias_of_root_index
      have "urlPath_of file = ''..md''" by auto
      then show ?thesis by (simp add: urlPath_of_dots)
    next
      fix d f
      assume u: "u = d @ CHR ''/'' # f" and d: "list_all normal_segment (split_on CHR ''/'' d)"
        and f: "normal_segment f" "CHR ''/'' \<notin> set f"
      let ?g = "path_basename d"
      from normal_path_ends [OF d] have de: "d \<noteq> []" "hd d \<noteq> CHR ''/''" by simp_all
      from f have fe: "f \<noteq> []" by (simp add: normal_segment_def)
      from basename_of_normal [OF d] have g: "normal_segment ?g" "CHR ''/'' \<notin> set ?g" by simp_all
      then have ge: "?g \<noteq> []" by (simp add: normal_segment_def)
      have gm: "normal_segment (?g @ ''.md'')" "CHR ''/'' \<notin> set (?g @ ''.md'')" "?g @ ''.md'' \<noteq> []"
        using g by (simp_all add: long_segment_normal)
      have dir: "path_dirname u = d" unfolding u using de fe f(2) by (rule path_dirname_in_dir)
      have j: "path_join [d, ?g @ ''.md''] = d @ CHR ''/'' # (?g @ ''.md'')"
        using d gm(1,2) by (rule path_join_normal)
      from q True dir ge j have r: "urlPath_of file = d @ CHR ''/'' # (?g @ ''.md'')" by simp
      have "urlPath_of (d @ CHR ''/'' # (?g @ ''.md'')) = d @ CHR ''/'' # (?g @ ''.md'')"
      proof (rule urlPath_of_fixed)
        have "d @ CHR ''/'' # (?g @ ''.md'') = (d @ CHR ''/'' # ?g) @ ''.md''" by simp
        then show "ends_with ''.md'' (d @ CHR ''/'' # (?g @ ''.md''))" by (metis ends_with_append)
        from assms(2) r show "\<not> has_locale_suffix (d @ CHR ''/'' # (?g @ ''.md''))" by simp
        have "path_dirname (d @ CHR ''/'' # (?g @ ''.md'')) = d"
          using de gm(3) gm(2) by (rule path_dirname_in_dir)
        with j show "path_join [path_dirname (d @ CHR ''/'' # (?g @ ''.md'')),
                 path_basename (path_dirname (d @ CHR ''/'' # (?g @ ''.md''))) @ ''.md'']
               = d @ CHR ''/'' # (?g @ ''.md'')
             \<or> path_basename_ext (d @ CHR ''/'' # (?g @ ''.md'')) ''.md'' \<notin> {''index'', ''_index''}"
          by simp
      qed
      with r show ?thesis by simp
    qed
  qed
qed

text \<open>
  C7 as stated fails: only one locale suffix is removed in a pass. For
  \<open>notes/guide.en.ru.md\<close> the first pass gives \<open>notes/guide.en.md\<close> and the second one
  \<open>notes/guide.md\<close>.
\<close>

theorem urlPath_of_idempotent_counterexample:
  "urlPath_of (urlPath_of ''notes/guide.en.ru.md'') \<noteq> urlPath_of ''notes/guide.en.ru.md''"
  by (simp add: urlPath_of_def md_ext_def strip_locale_def ends_with_def chop_def path_dirname_def
      path_basename_ext_def path_basename_def last_segment_def)

text \<open>
  The index file of an article with a locale suffix: the path of the output is the
  directory's name, and a second pass keeps it.
\<close>

theorem urlPath_of_idempotent_witness:
  "glob_path ''posts/my-article/index.en.mdx''
   \<and> urlPath_of ''posts/my-article/index.en.mdx'' = ''posts/my-article/my-article.md''
   \<and> \<not> has_locale_suffix (urlPath_of ''posts/my-article/index.en.mdx'')
   \<and> urlPath_of (urlPath_of ''posts/my-article/index.en.mdx'') = urlPath_of ''posts/my-article/index.en.mdx''"
proof -
  have g: "glob_path ''posts/my-article/index.en.mdx''"
    by (simp add: glob_path_def normal_segment_def ends_with_def)
  have e: "urlPath_of ''posts/my-article/index.en.mdx'' = ''posts/my-article/my-article.md''"
    by (simp add: urlPath_of_def md_ext_def strip_locale_def ends_with_def chop_def path_dirname_def
      path_basename_ext_def path_basename_def last_segment_def path_join_def path_normalize_def
      normalizeString_def)
  have h: "\<not> has_locale_suffix (urlPath_of ''posts/my-article/index.en.mdx'')"
    unfolding e by (simp add: has_locale_suffix_def ends_with_def)
  from urlPath_of_idempotent [OF g h] g e h show ?thesis by simp
qed

subsection \<open>Files inside a directory\<close>

text \<open>
  What C1 and C2 say does hold for a file inside a directory: its category is the first
  segment of its path, and an index file takes the name of the directory it is in.
\<close>

lemma split_on_first_segment:
  "c \<notin> set d \<Longrightarrow> split_on c (d @ c # rest) = d # split_on c rest"
  by (induction d) auto

lemma category_of_in_directory:
  assumes "d \<noteq> []" and "CHR ''/'' \<notin> set d"
  shows "category_of (d @ CHR ''/'' # rest) = d"
  using assms by (simp add: category_of_def split_on_first_segment)

lemma category_of_in_directory_witness:
  "category_of ''posts/my-article/index.mdx'' = ''posts''"
  using category_of_in_directory [of "''posts''" "''my-article/index.mdx''"] by simp

lemma normalized_locale:
  "md_ext (strip_locale (s @ ''.en.mdx'')) = s @ ''.md''"
  "md_ext (strip_locale (s @ ''.ru.mdx'')) = s @ ''.md''"
  "md_ext (strip_locale (s @ ''.en.md'')) = s @ ''.md''"
  "md_ext (strip_locale (s @ ''.ru.md'')) = s @ ''.md''"
  by (simp_all add: strip_locale_def md_ext_def ends_with_def chop_def)

lemma normalized_plain_index:
  "md_ext (strip_locale (d @ ''/index.md'')) = d @ ''/index.md''"
  "md_ext (strip_locale (d @ ''/index.mdx'')) = d @ ''/index.md''"
  "md_ext (strip_locale (d @ ''/_index.md'')) = d @ ''/_index.md''"
  "md_ext (strip_locale (d @ ''/_index.mdx'')) = d @ ''/_index.md''"
  by (simp_all add: strip_locale_def md_ext_def ends_with_def chop_def)

lemma normalized_index:
  assumes "stem \<in> {''index'', ''_index''}"
      and "ext \<in> {''.md'', ''.mdx'', ''.en.md'', ''.ru.md'', ''.en.mdx'', ''.ru.mdx''}"
  shows "md_ext (strip_locale (d @ CHR ''/'' # stem @ ext)) = d @ CHR ''/'' # stem @ ''.md''"
proof -
  have a: "d @ CHR ''/'' # stem @ e = (d @ CHR ''/'' # stem) @ e" for e by simp
  consider "ext = ''.md''" | "ext = ''.mdx''"
    | "ext \<in> {''.en.md'', ''.ru.md'', ''.en.mdx'', ''.ru.mdx''}" using assms(2) by auto
  then show ?thesis
  proof cases
    case 1
    with assms(1) normalized_plain_index(1,3) [of d] show ?thesis by auto
  next
    case 2
    with assms(1) normalized_plain_index(2,4) [of d] show ?thesis by auto
  next
    case 3
    then show ?thesis unfolding a [of ext] a [of "''.md''"]
      by (elim insertE emptyE) (simp_all only: normalized_locale)
  qed
qed

lemma urlPath_of_index_in_directory:
  assumes "list_all normal_segment (split_on CHR ''/'' d)"
      and "stem \<in> {''index'', ''_index''}"
      and "ext \<in> {''.md'', ''.mdx'', ''.en.md'', ''.ru.md'', ''.en.mdx'', ''.ru.mdx''}"
  shows "urlPath_of (d @ CHR ''/'' # stem @ ext) = d @ CHR ''/'' # path_basename d @ ''.md''"
proof -
  let ?u = "d @ CHR ''/'' # stem @ ''.md''"
  let ?g = "path_basename d"
  from assms(2) have s: "stem @ ''.md'' \<noteq> []" "CHR ''/'' \<notin> set (stem @ ''.md'')" by auto
  from normal_path_ends [OF assms(1)] have de: "d \<noteq> []" "hd d \<noteq> CHR ''/''" by simp_all
  have dir: "path_dirname ?u = d" using de s by (rule path_dirname_in_dir)
  have "last_segment ?u = stem @ ''.md''" using s by (rule last_segment_in_dir)
  with assms(2) have base: "path_basename_ext ?u ''.md'' = stem"
    by (auto simp: path_basename_ext_def ends_with_def chop_def)
  from basename_of_normal [OF assms(1)] have g: "normal_segment ?g" "CHR ''/'' \<notin> set ?g" by simp_all
  then have ge: "?g \<noteq> []" by (simp add: normal_segment_def)
  have "normal_segment (?g @ ''.md'')" "CHR ''/'' \<notin> set (?g @ ''.md'')"
    using g by (simp_all add: long_segment_normal)
  with assms(1) have j: "path_join [d, ?g @ ''.md''] = d @ CHR ''/'' # (?g @ ''.md'')"
    by (rule path_join_normal)
  from normalized_index [OF assms(2,3)] assms(2) dir base ge j show ?thesis
    by (auto simp: urlPath_of_def Let_def)
qed

lemma urlPath_of_index_in_directory_witness:
  "urlPath_of ''posts/my-article/index.mdx'' = ''posts/my-article/my-article.md''"
proof -
  have n: "list_all normal_segment (split_on CHR ''/'' ''posts/my-article'')"
    by (simp add: normal_segment_def)
  have b: "path_basename ''posts/my-article'' = ''my-article''"
    by (simp add: path_basename_def last_segment_def)
  from urlPath_of_index_in_directory [OF n, of "''index''" "''.mdx''"] b show ?thesis by simp
qed

subsection \<open>The order of the groups\<close>

text \<open>
  The categories come in the order in which the manifest first names them, and each group
  holds the entries of its category in the order of the manifest.
\<close>

lemma first_seen_snoc:
  "first_seen (xs @ [c]) = (if c \<in> set xs then first_seen xs else first_seen xs @ [c])"
  by (simp add: first_seen_def)

lemma set_first_seen: "set (first_seen xs) = set xs"
  by (simp add: first_seen_def)

lemma distinct_first_seen: "distinct (first_seen xs)"
  by (simp add: first_seen_def)

lemma push_file_absent:
  "k \<notin> set (map fst m) \<Longrightarrow> push_file k f (m @ [(k, fs)]) = m @ [(k, fs @ [f])]"
  by (induction m) auto

lemma push_file_grouped:
  "distinct ks \<Longrightarrow>
   push_file (category f) f (map (\<lambda>k. (k, filter (\<lambda>g. category g = k) es)) ks)
   = map (\<lambda>k. (k, filter (\<lambda>g. category g = k) (es @ [f]))) ks"
  by (induction ks) auto

lemma filesByCategory_groups:
  "filesByCategory entries
   = map (\<lambda>k. (k, filter (\<lambda>f. category f = k) entries)) (first_seen (map category entries))"
proof (induction entries rule: rev_induct)
  case Nil
  then show ?case by (simp add: filesByCategory_def first_seen_def)
next
  case (snoc f es)
  let ?ks = "first_seen (map category es)"
  let ?m = "map (\<lambda>k. (k, filter (\<lambda>g. category g = k) es)) ?ks"
  have keys: "map fst ?m = ?ks" by (simp add: comp_def)
  have dom: "fst ` set ?m = category ` set es"
    by (simp add: image_image set_first_seen)
  show ?case
  proof (cases "category f \<in> set (map category es)")
    case True
    then have "map_of ?m (category f) \<noteq> None"
      unfolding map_of_eq_None_iff dom by simp
    then have "group_step ?m f = push_file (category f) f ?m" by (auto simp: group_step_def)
    also have "\<dots> = map (\<lambda>k. (k, filter (\<lambda>g. category g = k) (es @ [f]))) ?ks"
      using distinct_first_seen by (rule push_file_grouped)
    finally show ?thesis using True snoc.IH
      by (simp add: filesByCategory_snoc first_seen_snoc)
  next
    case False
    then have none: "map_of ?m (category f) = None"
      unfolding map_of_eq_None_iff dom by simp
    from False have nk: "category f \<notin> set (map fst ?m)"
      unfolding keys by (simp add: set_first_seen)
    from False have "\<forall>g \<in> set es. category g \<noteq> category f"
      by (metis image_eqI list.set_map)
    then have e: "filter (\<lambda>g. category g = category f) es = []"
      by (simp add: filter_empty_conv)
    have same: "k \<noteq> category f" if "k \<in> set ?ks" for k
      using that False unfolding set_first_seen by blast
    from none have "group_step ?m f = push_file (category f) f (?m @ [(category f, [])])"
      by (simp add: group_step_def)
    also have "\<dots> = ?m @ [(category f, [f])]" using nk by (simp add: push_file_absent del: map_map)
    also have "\<dots> = map (\<lambda>k. (k, filter (\<lambda>g. category g = k) (es @ [f]))) (?ks @ [category f])"
      using same e by auto
    finally show ?thesis using False snoc.IH
      by (simp add: filesByCategory_snoc first_seen_snoc)
  qed
qed

subsection \<open>Every result of \<open>extractDescription\<close>\<close>

lemma paragraph_match_SomeD:
  assumes "first_line_match paragraph_here True body = Some g"
  shows "\<exists>pre c cs. body = pre @ c # cs \<and> (pre = [] \<or> is_lt (last pre))
           \<and> c \<noteq> CHR 0x0A \<and> c \<noteq> CHR ''#''
           \<and> 50 \<le> length (takeWhile (\<lambda>x. \<not> is_lt x) cs)
           \<and> g = c # take 200 (takeWhile (\<lambda>x. \<not> is_lt x) cs)
           \<and> (\<forall>pre' c' cs'. body = pre' @ c' # cs' \<and> length pre' < length pre
                 \<and> (pre' = [] \<or> is_lt (last pre')) \<and> c' \<noteq> CHR 0x0A \<and> c' \<noteq> CHR ''#''
               \<longrightarrow> length (takeWhile (\<lambda>x. \<not> is_lt x) cs') < 50)"
proof -
  from first_line_match_True_SomeD [OF assms] obtain pre t where
    b: "body = pre @ t" and l: "pre = [] \<or> is_lt (last pre)" and p: "paragraph_here t = Some g" and
    least: "\<forall>pre' t'. body = pre' @ t' \<and> length pre' < length pre
          \<and> (pre' = [] \<or> is_lt (last pre')) \<longrightarrow> paragraph_here t' = None"
    by blast
  from paragraph_here_SomeD [OF p] obtain c cs where
    t: "t = c # cs" and c: "c \<noteq> CHR 0x0A" "c \<noteq> CHR ''#''" and
    n: "50 \<le> length (takeWhile (\<lambda>x. \<not> is_lt x) cs)" and
    gg: "g = c # take 200 (takeWhile (\<lambda>x. \<not> is_lt x) cs)"
    by blast
  have "length (takeWhile (\<lambda>x. \<not> is_lt x) cs') < 50"
    if "body = pre' @ c' # cs'" "length pre' < length pre" "pre' = [] \<or> is_lt (last pre')"
       "c' \<noteq> CHR 0x0A" "c' \<noteq> CHR ''#''" for pre' c' cs'
  proof -
    from that least have "paragraph_here (c' # cs') = None" by blast
    with that show ?thesis by (simp add: paragraph_here_None_iff)
  qed
  with b l t c n gg show ?thesis by blast
qed

lemma paragraph_match_first:
  assumes b: "body = pre @ c # cs" and l: "pre = [] \<or> is_lt (last pre)"
      and c: "c \<noteq> CHR 0x0A" "c \<noteq> CHR ''#''"
      and n: "50 \<le> length (takeWhile (\<lambda>x. \<not> is_lt x) cs)"
      and first: "\<forall>pre' c' cs'. body = pre' @ c' # cs' \<and> length pre' < length pre
                 \<and> (pre' = [] \<or> is_lt (last pre')) \<and> c' \<noteq> CHR 0x0A \<and> c' \<noteq> CHR ''#''
               \<longrightarrow> length (takeWhile (\<lambda>x. \<not> is_lt x) cs') < 50"
  shows "first_line_match paragraph_here True body = Some (c # take 200 (takeWhile (\<lambda>x. \<not> is_lt x) cs))"
proof (cases "first_line_match paragraph_here True body")
  case None
  from first_line_match_True_NoneD [OF None b l] have "paragraph_here (c # cs) = None" .
  with c n show ?thesis by (simp add: paragraph_here_None_iff)
next
  case (Some g)
  from paragraph_match_SomeD [OF Some] obtain pre0 c0 cs0 where
    b0: "body = pre0 @ c0 # cs0" and l0: "pre0 = [] \<or> is_lt (last pre0)" and
    c0: "c0 \<noteq> CHR 0x0A" "c0 \<noteq> CHR ''#''" and
    n0: "50 \<le> length (takeWhile (\<lambda>x. \<not> is_lt x) cs0)" and
    g: "g = c0 # take 200 (takeWhile (\<lambda>x. \<not> is_lt x) cs0)" and
    first0: "\<forall>pre' c' cs'. body = pre' @ c' # cs' \<and> length pre' < length pre0
                 \<and> (pre' = [] \<or> is_lt (last pre')) \<and> c' \<noteq> CHR 0x0A \<and> c' \<noteq> CHR ''#''
               \<longrightarrow> length (takeWhile (\<lambda>x. \<not> is_lt x) cs') < 50"
    by blast
  have "\<not> length pre < length pre0"
  proof
    assume "length pre < length pre0"
    with first0 b l c have "length (takeWhile (\<lambda>x. \<not> is_lt x) cs) < 50" by blast
    with n show False by simp
  qed
  moreover have "\<not> length pre0 < length pre"
  proof
    assume "length pre0 < length pre"
    with first b0 l0 c0 have "length (takeWhile (\<lambda>x. \<not> is_lt x) cs0) < 50" by blast
    with n0 show False by simp
  qed
  ultimately have "length pre = length pre0" by simp
  with b b0 have "pre = pre0 \<and> c = c0 \<and> cs = cs0" by simp
  with Some g show ?thesis by simp
qed

lemma falsy_cases:
  "\<not> truthy v \<longleftrightarrow> (v = None \<or> v = Some (Str []))"
  by (auto simp: truthy_def split: option.splits jsval.splits)

lemma truthy_cases:
  "truthy v \<longleftrightarrow> (\<exists>s. s \<noteq> [] \<and> v = Some (Str s)) \<or> (\<exists>a. v = Some (Arr a))"
  by (auto simp: truthy_def split: option.splits jsval.splits)

text \<open>
  C10, as amended. A position of the body qualifies when it is at the start of a line, its
  character is neither a line feed nor \<open>#\<close>, and at least 50 more characters follow before
  the next line terminator; its text is that character with the next 200 characters of
  its line, or all of them when there are fewer.

    \<^item> The result of \<open>extractDescription\<close> is absent exactly when the metadata has no
      description, or the empty string as description, and no position qualifies.

    \<^item> It is the empty string exactly when the metadata has no description, or the empty
      string as description, and the text of the first position that qualifies is white
      space only.

    \<^item> Every result is of one of three kinds: the description of the metadata when that is
      a string that is not empty; the description of the metadata when that is a list,
      which may be empty; or, when the metadata has no description or the empty string,
      the text of the first position that qualifies, trimmed and cut to 200 characters.
\<close>

theorem extractDescription_result:
  "(extractDescription m body = None \<longleftrightarrow>
      (m ''description'' = None \<or> m ''description'' = Some (Str []))
      \<and> (\<forall>pre c cs. body = pre @ c # cs \<and> (pre = [] \<or> is_lt (last pre))
               \<and> c \<noteq> CHR 0x0A \<and> c \<noteq> CHR ''#''
             \<longrightarrow> length (takeWhile (\<lambda>x. \<not> is_lt x) cs) < 50))
   \<and> (extractDescription m body = Some (Str []) \<longleftrightarrow>
      (m ''description'' = None \<or> m ''description'' = Some (Str []))
      \<and> (\<exists>pre c cs. body = pre @ c # cs \<and> (pre = [] \<or> is_lt (last pre))
             \<and> c \<noteq> CHR 0x0A \<and> c \<noteq> CHR ''#''
             \<and> 50 \<le> length (takeWhile (\<lambda>x. \<not> is_lt x) cs)
             \<and> (\<forall>pre' c' cs'. body = pre' @ c' # cs' \<and> length pre' < length pre
                   \<and> (pre' = [] \<or> is_lt (last pre')) \<and> c' \<noteq> CHR 0x0A \<and> c' \<noteq> CHR ''#''
                 \<longrightarrow> length (takeWhile (\<lambda>x. \<not> is_lt x) cs') < 50)
             \<and> is_space c \<and> (\<forall>x \<in> set (take 200 (takeWhile (\<lambda>x. \<not> is_lt x) cs)). is_space x)))
   \<and> (\<forall>v. extractDescription m body = Some v \<longrightarrow>
         (\<exists>s. v = Str s \<and> s \<noteq> [] \<and> m ''description'' = Some (Str s))
       \<or> (\<exists>a. v = Arr a \<and> m ''description'' = Some (Arr a))
       \<or> ((m ''description'' = None \<or> m ''description'' = Some (Str []))
           \<and> extractDescription Map.empty body = Some v
           \<and> (\<exists>d pre c cs. v = Str d \<and> length d \<le> 200
                 \<and> body = pre @ c # cs \<and> (pre = [] \<or> is_lt (last pre))
                 \<and> c \<noteq> CHR 0x0A \<and> c \<noteq> CHR ''#''
                 \<and> 50 \<le> length (takeWhile (\<lambda>x. \<not> is_lt x) cs)
                 \<and> (\<forall>pre' c' cs'. body = pre' @ c' # cs' \<and> length pre' < length pre
                       \<and> (pre' = [] \<or> is_lt (last pre')) \<and> c' \<noteq> CHR 0x0A \<and> c' \<noteq> CHR ''#''
                     \<longrightarrow> length (takeWhile (\<lambda>x. \<not> is_lt x) cs') < 50)
                 \<and> d = take 200 (trim (c # take 200 (takeWhile (\<lambda>x. \<not> is_lt x) cs))))))"
  (is "(?N \<longleftrightarrow> ?A) \<and> (?L \<longleftrightarrow> ?R) \<and> (\<forall>v. ?P v \<longrightarrow> ?Q v)")
proof (intro conjI)
  show "?N \<longleftrightarrow> ?A"
  proof
    assume n: ?N
    have f: "\<not> truthy (m ''description'')"
    proof
      assume t: "truthy (m ''description'')"
      with n have "m ''description'' = None" by (simp add: extractDescription_def)
      with t show False by (simp add: truthy_def)
    qed
    with n have g: "first_line_match paragraph_here True body = None"
      by (auto simp: extractDescription_body split: option.splits)
    have "\<forall>pre c cs. body = pre @ c # cs \<and> (pre = [] \<or> is_lt (last pre))
               \<and> c \<noteq> CHR 0x0A \<and> c \<noteq> CHR ''#''
             \<longrightarrow> length (takeWhile (\<lambda>x. \<not> is_lt x) cs) < 50"
    proof (intro allI impI)
      fix pre c cs
      assume a: "body = pre @ c # cs \<and> (pre = [] \<or> is_lt (last pre))
               \<and> c \<noteq> CHR 0x0A \<and> c \<noteq> CHR ''#''"
      then have b: "body = pre @ c # cs" and l: "pre = [] \<or> is_lt (last pre)" by simp_all
      from first_line_match_True_NoneD [OF g b l] have "paragraph_here (c # cs) = None" .
      with a show "length (takeWhile (\<lambda>x. \<not> is_lt x) cs) < 50"
        by (simp add: paragraph_here_None_iff)
    qed
    moreover from f have "m ''description'' = None \<or> m ''description'' = Some (Str [])"
      by (simp add: falsy_cases)
    ultimately show ?A by blast
  next
    assume a: ?A
    then have f: "\<not> truthy (m ''description'')" by (simp add: falsy_cases)
    have "first_line_match paragraph_here True body = None"
    proof (cases "first_line_match paragraph_here True body")
      case None
      then show ?thesis .
    next
      case (Some g)
      from paragraph_match_SomeD [OF Some] obtain pre c cs where
        "body = pre @ c # cs \<and> (pre = [] \<or> is_lt (last pre))
           \<and> c \<noteq> CHR 0x0A \<and> c \<noteq> CHR ''#''"
        and "50 \<le> length (takeWhile (\<lambda>x. \<not> is_lt x) cs)" by blast
      moreover from a have "\<forall>pre c cs. body = pre @ c # cs \<and> (pre = [] \<or> is_lt (last pre))
               \<and> c \<noteq> CHR 0x0A \<and> c \<noteq> CHR ''#''
             \<longrightarrow> length (takeWhile (\<lambda>x. \<not> is_lt x) cs) < 50" by blast
      ultimately have "length (takeWhile (\<lambda>x. \<not> is_lt x) cs) < 50" by blast
      with \<open>50 \<le> length (takeWhile (\<lambda>x. \<not> is_lt x) cs)\<close> have False by simp
      then show ?thesis ..
    qed
    with f show ?N by (simp add: extractDescription_body)
  qed
next
  show "?L \<longleftrightarrow> ?R"
  proof
    assume e: ?L
    have f: "\<not> truthy (m ''description'')"
    proof
      assume t: "truthy (m ''description'')"
      with e have "m ''description'' = Some (Str [])" by (simp add: extractDescription_def)
      with t show False by (simp add: truthy_def)
    qed
    with e obtain g where g: "first_line_match paragraph_here True body = Some g"
      and z: "take 200 (trim g) = []"
      by (auto simp: extractDescription_body split: option.splits)
    from z have sp: "\<forall>x \<in> set g. is_space x" by (simp add: trim_empty_iff)
    from paragraph_match_SomeD [OF g] obtain pre c cs where
      t: "body = pre @ c # cs \<and> (pre = [] \<or> is_lt (last pre))
           \<and> c \<noteq> CHR 0x0A \<and> c \<noteq> CHR ''#''
           \<and> 50 \<le> length (takeWhile (\<lambda>x. \<not> is_lt x) cs)"
      and first: "\<forall>pre' c' cs'. body = pre' @ c' # cs' \<and> length pre' < length pre
                 \<and> (pre' = [] \<or> is_lt (last pre')) \<and> c' \<noteq> CHR 0x0A \<and> c' \<noteq> CHR ''#''
               \<longrightarrow> length (takeWhile (\<lambda>x. \<not> is_lt x) cs') < 50"
      and gg: "g = c # take 200 (takeWhile (\<lambda>x. \<not> is_lt x) cs)" by blast
    from sp gg have s2: "is_space c \<and> (\<forall>x \<in> set (take 200 (takeWhile (\<lambda>x. \<not> is_lt x) cs)). is_space x)"
      by simp
    from f have "m ''description'' = None \<or> m ''description'' = Some (Str [])"
      by (simp add: falsy_cases)
    with t first s2 show ?R by blast
  next
    assume a: ?R
    then have f: "\<not> truthy (m ''description'')" by (simp add: falsy_cases)
    from a obtain pre c cs where
      b: "body = pre @ c # cs" and l: "pre = [] \<or> is_lt (last pre)"
      and c: "c \<noteq> CHR 0x0A" "c \<noteq> CHR ''#''"
      and n: "50 \<le> length (takeWhile (\<lambda>x. \<not> is_lt x) cs)"
      and first: "\<forall>pre' c' cs'. body = pre' @ c' # cs' \<and> length pre' < length pre
                   \<and> (pre' = [] \<or> is_lt (last pre')) \<and> c' \<noteq> CHR 0x0A \<and> c' \<noteq> CHR ''#''
                 \<longrightarrow> length (takeWhile (\<lambda>x. \<not> is_lt x) cs') < 50"
      and sp: "is_space c" "\<forall>x \<in> set (take 200 (takeWhile (\<lambda>x. \<not> is_lt x) cs)). is_space x"
      by blast
    from paragraph_match_first [OF b l c n first]
    have g: "first_line_match paragraph_here True body
             = Some (c # take 200 (takeWhile (\<lambda>x. \<not> is_lt x) cs))" .
    from sp have "trim (c # take 200 (takeWhile (\<lambda>x. \<not> is_lt x) cs)) = []"
      by (simp add: trim_empty_iff)
    with g f show ?L by (simp add: extractDescription_body)
  qed
next
  show "\<forall>v. ?P v \<longrightarrow> ?Q v"
  proof (intro allI impI)
    fix v
    assume e: "?P v"
    show "?Q v"
    proof (cases "truthy (m ''description'')")
      case True
      with e have "m ''description'' = Some v" by (simp add: extractDescription_def)
      with True show ?thesis by (auto simp: truthy_cases)
    next
      case False
      have ee: "\<not> truthy (Map.empty ''description'')" by (simp add: truthy_def)
      from e False obtain g where g: "first_line_match paragraph_here True body = Some g"
        and v: "v = Str (take 200 (trim g))"
        by (auto simp: extractDescription_body split: option.splits)
      from g v have emp: "extractDescription Map.empty body = Some v"
        by (simp add: extractDescription_body [OF ee])
      from paragraph_match_SomeD [OF g] obtain pre c cs where
        t: "body = pre @ c # cs \<and> (pre = [] \<or> is_lt (last pre))
             \<and> c \<noteq> CHR 0x0A \<and> c \<noteq> CHR ''#''
             \<and> 50 \<le> length (takeWhile (\<lambda>x. \<not> is_lt x) cs)"
        and first: "\<forall>pre' c' cs'. body = pre' @ c' # cs' \<and> length pre' < length pre
                   \<and> (pre' = [] \<or> is_lt (last pre')) \<and> c' \<noteq> CHR 0x0A \<and> c' \<noteq> CHR ''#''
                 \<longrightarrow> length (takeWhile (\<lambda>x. \<not> is_lt x) cs') < 50"
        and gg: "g = c # take 200 (takeWhile (\<lambda>x. \<not> is_lt x) cs)" by blast
      have len: "length (take 200 (trim g)) \<le> 200" by simp
      from False have fc: "m ''description'' = None \<or> m ''description'' = Some (Str [])"
        by (simp add: falsy_cases)
      from v len t first gg
      have "\<exists>d pre c cs. v = Str d \<and> length d \<le> 200
                 \<and> body = pre @ c # cs \<and> (pre = [] \<or> is_lt (last pre))
                 \<and> c \<noteq> CHR 0x0A \<and> c \<noteq> CHR ''#''
                 \<and> 50 \<le> length (takeWhile (\<lambda>x. \<not> is_lt x) cs)
                 \<and> (\<forall>pre' c' cs'. body = pre' @ c' # cs' \<and> length pre' < length pre
                       \<and> (pre' = [] \<or> is_lt (last pre')) \<and> c' \<noteq> CHR 0x0A \<and> c' \<noteq> CHR ''#''
                     \<longrightarrow> length (takeWhile (\<lambda>x. \<not> is_lt x) cs') < 50)
                 \<and> d = take 200 (trim (c # take 200 (takeWhile (\<lambda>x. \<not> is_lt x) cs)))"
        by blast
      with fc emp show ?thesis by blast
    qed
  qed
qed

text \<open>
  C10 as stated fails. A body that is a line of 51 spaces has the empty string as its
  description. And the block header \<open>description: []\<close> of an MDX file gives the empty list
  as the description of the metadata, which is truthy and is the result.
\<close>

theorem extractDescription_empty_counterexample:
  "extractDescription Map.empty (replicate 51 CHR '' '') = Some (Str [])
   \<and> extractDescription (metadata (processMDXFile ''---\<newline>description: []\<newline>---\<newline>Body'')) ''Body''
     = Some (Arr [])"
  by (simp add: extractDescription_def truthy_def paragraph_here_def is_lt_def trim_def is_space_def
      eval_nat_numeral processMDXFile_def frontmatterMatch_def starts_with_def closing_here_def
      mdx_line_def set_key_def line_match_def is_word_def is_upper_def is_lower_def is_digit_def
      unquote_def is_quote_def ends_with_def parse_list_def strip_quotes_def)

text \<open>
  The title line is passed over and the paragraph of 63 characters is the description.
\<close>

theorem extractDescription_result_witness:
  "extractDescription Map.empty
     ''# Title\<newline>This paragraph has more than fifty characters on a single line.''
   = Some (Str ''This paragraph has more than fifty characters on a single line.'')
   \<and> extractDescription Map.empty
       ''# Title\<newline>This paragraph has more than fifty characters on a single line.''
     \<noteq> Some (Str [])
   \<and> (\<exists>d pre c cs. Str ''This paragraph has more than fifty characters on a single line.'' = Str d
         \<and> length d \<le> 200
         \<and> ''# Title\<newline>This paragraph has more than fifty characters on a single line.'' = pre @ c # cs
         \<and> (pre = [] \<or> is_lt (last pre)) \<and> c \<noteq> CHR 0x0A \<and> c \<noteq> CHR ''#''
         \<and> 50 \<le> length (takeWhile (\<lambda>x. \<not> is_lt x) cs)
         \<and> d = take 200 (trim (c # take 200 (takeWhile (\<lambda>x. \<not> is_lt x) cs))))"
proof -
  have e: "extractDescription Map.empty
     ''# Title\<newline>This paragraph has more than fifty characters on a single line.''
   = Some (Str ''This paragraph has more than fifty characters on a single line.'')"
    by (simp add: extractDescription_def truthy_def paragraph_here_def is_lt_def trim_def is_space_def)
  from extractDescription_result [of Map.empty
      "''# Title\<newline>This paragraph has more than fifty characters on a single line.''",
      THEN conjunct2, THEN conjunct2, rule_format, OF e]
  have "\<exists>d pre c cs. Str ''This paragraph has more than fifty characters on a single line.'' = Str d
         \<and> length d \<le> 200
         \<and> ''# Title\<newline>This paragraph has more than fifty characters on a single line.'' = pre @ c # cs
         \<and> (pre = [] \<or> is_lt (last pre)) \<and> c \<noteq> CHR 0x0A \<and> c \<noteq> CHR ''#''
         \<and> 50 \<le> length (takeWhile (\<lambda>x. \<not> is_lt x) cs)
         \<and> d = take 200 (trim (c # take 200 (takeWhile (\<lambda>x. \<not> is_lt x) cs)))"
    by simp blast
  with e show ?thesis by simp
qed

subsection \<open>Every result of \<open>extractTitle\<close>\<close>

lemma capitalize_nth:
  "i < length s \<Longrightarrow>
   capitalize p s ! i =
     (if is_word (s ! i) \<and> \<not> (if i = 0 then p else is_word (s ! (i - 1)))
      then to_upper (s ! i) else s ! i)"
proof (induction s arbitrary: p i)
  case Nil
  then show ?case by simp
next
  case (Cons c cs)
  show ?case
  proof (cases i)
    case 0
    then show ?thesis by simp
  next
    case (Suc j)
    with Cons.prems have j: "j < length cs" by simp
    from Cons.IH [OF j, of "is_word c"] Suc show ?thesis by (cases j) simp_all
  qed
qed

lemma word_after_replace:
  "is_word (if c = CHR ''-'' \<or> c = CHR ''_'' then CHR '' '' else c)
   \<longleftrightarrow> is_upper c \<or> is_lower c \<or> is_digit c"
  by (auto simp: is_word_def is_upper_def is_lower_def is_digit_def)

lemma filename_title_chars:
  assumes "i < length b"
  shows "capitalize False (map (\<lambda>c. if c = CHR ''-'' \<or> c = CHR ''_'' then CHR '' '' else c) b) ! i =
     (if b ! i = CHR ''-'' \<or> b ! i = CHR ''_'' then CHR '' ''
      else if is_lower (b ! i)
              \<and> (i = 0 \<or> \<not> (is_upper (b ! (i - 1)) \<or> is_lower (b ! (i - 1)) \<or> is_digit (b ! (i - 1))))
           then char_of (of_char (b ! i) - (32::nat))
           else b ! i)"
proof -
  let ?r = "\<lambda>c. if c = CHR ''-'' \<or> c = CHR ''_'' then CHR '' '' else c"
  have n: "map ?r b ! i = ?r (b ! i)" using assms by simp
  have p: "map ?r b ! (i - 1) = ?r (b ! (i - 1))" using assms by simp
  have l: "\<not> is_lower CHR ''-''" "\<not> is_lower CHR ''_''" "\<not> is_lower CHR '' ''"
    by (simp_all add: is_lower_def)
  from assms have "i < length (map ?r b)" by simp
  from capitalize_nth [OF this, of False]
  show ?thesis
    unfolding n p word_after_replace
    by (cases "i = 0") (auto simp: to_upper_def l)
qed

lemma last_dot_None: "last_dot xs = None \<Longrightarrow> CHR ''.'' \<notin> set xs"
  by (induction xs) (auto split: if_splits option.splits)

lemma last_dot_Some:
  "last_dot xs = Some e \<Longrightarrow> \<exists>a rest. e = a @ ''.'' \<and> CHR ''.'' \<notin> set a \<and> xs = e @ rest"
proof (induction xs arbitrary: e)
  case Nil
  then show ?case by simp
next
  case (Cons c cs)
  show ?case
  proof (cases "c = CHR ''.''")
    case True
    with Cons.prems have "e = [] @ ''.''" by simp
    with True show ?thesis by (metis append_Cons append_Nil empty_iff list.set(1))
  next
    case False
    with Cons.prems obtain e' where e': "last_dot cs = Some e'" "e = c # e'"
      by (auto split: option.splits)
    from Cons.IH [OF e'(1)] obtain a rest where "e' = a @ ''.''" "CHR ''.'' \<notin> set a" "cs = e' @ rest"
      by blast
    with e'(2) False have "e = (c # a) @ ''.'' \<and> CHR ''.'' \<notin> set (c # a) \<and> c # cs = e @ rest"
      by simp
    then show ?thesis by blast
  qed
qed

lemma dropWhile_all_prefix: "\<forall>c \<in> set xs. P c \<Longrightarrow> dropWhile P (xs @ ys) = dropWhile P ys"
  by (induction xs) auto

lemma last_segment_decomp:
  assumes "seg \<noteq> []" "CHR ''/'' \<notin> set seg" "dir = [] \<or> last dir = CHR ''/''"
      and "set sl \<subseteq> {CHR ''/''}"
  shows "last_segment (dir @ seg @ sl) = seg"
proof -
  have r: "rev (dir @ seg @ sl) = rev sl @ rev seg @ rev dir" by simp
  from assms(1,2) have h: "hd (rev seg) \<noteq> CHR ''/''" by (metis hd_rev last_in_set)
  from assms(1) obtain x xs where x: "rev seg = x # xs" by (cases "rev seg") auto
  with h have xn: "x \<noteq> CHR ''/''" by simp
  from assms(4) have "\<forall>c \<in> set (rev sl). c = CHR ''/''" by auto
  then have "dropWhile (\<lambda>c. c = CHR ''/'') (rev sl @ rev seg @ rev dir)
             = dropWhile (\<lambda>c. c = CHR ''/'') (rev seg @ rev dir)"
    by (rule dropWhile_all_prefix)
  also have "\<dots> = rev seg @ rev dir" unfolding x using xn by simp
  finally have a: "dropWhile (\<lambda>c. c = CHR ''/'') (rev sl @ rev seg @ rev dir) = rev seg @ rev dir" .
  have b: "takeWhile (\<lambda>c. c \<noteq> CHR ''/'') (rev seg @ rev dir) = rev seg"
  proof (cases "dir = []")
    case True
    with assms(2) show ?thesis by (auto simp: takeWhile_eq_all_conv)
  next
    case False
    with assms(3) have "dir = butlast dir @ [CHR ''/'']" by (metis append_butlast_last_id)
    then have "rev dir = CHR ''/'' # rev (butlast dir)" by (metis rev.simps(2) rev_append rev_rev_ident append_Nil append_Cons rev_singleton_conv)
    then obtain ys where ys: "rev dir = CHR ''/'' # ys" ..
    have "takeWhile (\<lambda>c. c \<noteq> CHR ''/'') (rev seg @ CHR ''/'' # ys)
          = takeWhile (\<lambda>c. c \<noteq> CHR ''/'') (rev seg)"
      by (rule takeWhile_tail) simp
    also have "\<dots> = rev seg" using assms(2) by (auto simp: takeWhile_eq_all_conv)
    finally show ?thesis unfolding ys .
  qed
  show ?thesis unfolding last_segment_def r a b by simp
qed

lemma basename_ext_decomp:
  assumes seg: "last_segment p = seg" "seg \<noteq> []"
  shows "\<exists>stem ext. seg = stem @ ext \<and> stem \<noteq> []
           \<and> (ext = [] \<or> (\<exists>x. ext = CHR ''.'' # x \<and> CHR ''.'' \<notin> set x))
           \<and> (ext = [] \<longleftrightarrow> (CHR ''.'' \<notin> set (tl seg) \<or> seg = ''..''))
           \<and> path_basename_ext p (path_extname p) = stem"
proof (cases "last_dot (rev seg)")
  case None
  from last_dot_None [OF None] have "CHR ''.'' \<notin> set seg" by simp
  then have nt: "CHR ''.'' \<notin> set (tl seg)" by (metis list.set_sel(2) tl_Nil)
  from None seg have "path_extname p = []" by (simp add: path_extname_def)
  with seg have "path_basename_ext p (path_extname p) = seg"
    by (simp add: path_basename_ext_def path_basename_def)
  with seg nt show ?thesis by (intro exI [of _ seg] exI [of _ "[]"]) simp
next
  case (Some e)
  from last_dot_Some [OF Some] obtain a rest where
    e: "e = a @ ''.''" and a: "CHR ''.'' \<notin> set a" and r: "rev seg = e @ rest" by blast
  from r e have s: "seg = rev rest @ CHR ''.'' # rev a" by (metis rev_append rev_rev_ident rev.simps(2) append_Nil rev_singleton_conv append_Cons append_assoc)
  show ?thesis
  proof (cases "rest = [] \<or> seg = ''..''")
    case True
    have le: "length e = length seg \<longleftrightarrow> rest = []"
      using r by (metis append_Nil2 length_append length_rev add_cancel_right_right length_0_conv)
    from True Some seg le have x: "path_extname p = []" by (auto simp: path_extname_def)
    with seg have b: "path_basename_ext p (path_extname p) = seg"
      by (simp add: path_basename_ext_def path_basename_def)
    from True have "CHR ''.'' \<notin> set (tl seg) \<or> seg = ''..''"
    proof
      assume "rest = []"
      with s a show ?thesis by simp
    next
      assume "seg = ''..''"
      then show ?thesis by simp
    qed
    with seg b show ?thesis by (intro exI [of _ seg] exI [of _ "[]"]) simp
  next
    case False
    then have rest: "rest \<noteq> []" and nd: "seg \<noteq> ''..''" by simp_all
    have le: "length e \<noteq> length seg"
      using r rest by (metis append_Nil2 length_append length_rev add_cancel_right_right length_0_conv)
    from Some seg le nd have x: "path_extname p = rev e" by (simp add: path_extname_def)
    have re: "rev e = CHR ''.'' # rev a" using e by simp
    from s re have sg: "seg = rev rest @ rev e" by simp
    then have ew: "ends_with (rev e) seg" by (simp add: ends_with_def)
    from sg rest have lt: "length (rev e) < length seg" by simp
    with length_last_segment [of p] seg have lp: "length (rev e) < length p" by simp
    from sg rest have ne: "seg \<noteq> rev e" by auto
    from sg have ch: "chop (length (rev e)) seg = rev rest" by (simp add: chop_def)
    from x ew ne lp seg ch re have b: "path_basename_ext p (path_extname p) = rev rest"
      by (auto simp: path_basename_ext_def Let_def)
    from s rest obtain y ys where "rev rest = y # ys" by (cases "rev rest") auto
    with s have "CHR ''.'' \<in> set (tl seg)" by simp
    with nd have iff: "(rev e = [] \<longleftrightarrow> (CHR ''.'' \<notin> set (tl seg) \<or> seg = ''..''))"
      using re by simp
    from sg rest a re b iff show ?thesis
      by (intro exI [of _ "rev rest"] exI [of _ "rev e"]) auto
  qed
qed


text \<open>
  C3, as amended. Let the path be a directory part (empty, or ending with \<open>/\<close>), then a file
  name that is not empty and holds no \<open>/\<close>, then any number of \<open>/\<close>; and let the body not end
  with white space, as every body that \<open>processMDFile\<close> and \<open>processMDXFile\<close> produce. Then
  \<open>extractTitle\<close> returns the title of the metadata as it is when that is a list; otherwise
  it returns a string that is not empty, which is

    \<^item> the title of the metadata, when that is a string that is not empty; else

    \<^item> the trimmed text of the first heading: the first \<open>#\<close> at the start of a line that is
      followed by white space, the text being what follows all of that white space, up to
      the next line terminator; else, when no \<open>#\<close> at the start of a line is followed by
      white space,

    \<^item> the file name without its extension (what follows its last dot, when that dot is not
      the first character of the name and the name is not \<open>..\<close>), where every \<open>-\<close> and \<open>_\<close>
      is replaced by a space, and every lower-case letter that is the first character or
      follows a character that is neither a letter nor a digit is replaced by its
      upper-case letter.
\<close>

theorem extractTitle_nonempty:
  assumes path: "filePath = dir @ seg @ sl" "dir = [] \<or> last dir = CHR ''/''" "seg \<noteq> []"
                "CHR ''/'' \<notin> set seg" "set sl \<subseteq> {CHR ''/''}"
      and trimmed: "body = [] \<or> \<not> is_space (last body)"
  shows "(\<exists>a. m ''title'' = Some (Arr a) \<and> extractTitle filePath m body = Arr a)
     \<or> (\<exists>t. extractTitle filePath m body = Str t \<and> t \<noteq> []
          \<and> (m ''title'' = Some (Str t)
             \<or> ((m ''title'' = None \<or> m ''title'' = Some (Str []))
                 \<and> (\<exists>pre w r. body = pre @ CHR ''#'' # w # r \<and> (pre = [] \<or> is_lt (last pre)) \<and> is_space w
                       \<and> t = trim (takeWhile (\<lambda>x. \<not> is_lt x) (dropWhile is_space r))
                       \<and> (\<forall>pre' w' r'. body = pre' @ CHR ''#'' # w' # r' \<and> length pre' < length pre
                             \<and> (pre' = [] \<or> is_lt (last pre')) \<longrightarrow> \<not> is_space w')))
             \<or> ((m ''title'' = None \<or> m ''title'' = Some (Str []))
                 \<and> (\<forall>pre w r. body = pre @ CHR ''#'' # w # r \<and> (pre = [] \<or> is_lt (last pre))
                       \<longrightarrow> \<not> is_space w)
                 \<and> (\<exists>stem ext. seg = stem @ ext \<and> stem \<noteq> []
                       \<and> (ext = [] \<or> (\<exists>x. ext = CHR ''.'' # x \<and> CHR ''.'' \<notin> set x))
                       \<and> (ext = [] \<longleftrightarrow> (CHR ''.'' \<notin> set (tl seg) \<or> seg = ''..''))
                       \<and> length t = length stem
                       \<and> (\<forall>i < length stem. t ! i =
                            (if stem ! i = CHR ''-'' \<or> stem ! i = CHR ''_'' then CHR '' ''
                             else if is_lower (stem ! i)
                                     \<and> (i = 0 \<or> \<not> (is_upper (stem ! (i - 1)) \<or> is_lower (stem ! (i - 1))
                                                    \<or> is_digit (stem ! (i - 1))))
                                  then char_of (of_char (stem ! i) - (32::nat))
                                  else stem ! i))))))"
proof (cases "truthy (m ''title'')")
  case True
  then have "(\<exists>s. s \<noteq> [] \<and> m ''title'' = Some (Str s)) \<or> (\<exists>a. m ''title'' = Some (Arr a))"
    by (simp add: truthy_cases)
  with True show ?thesis by (auto simp: extractTitle_def)
next
  case False
  then have fc: "m ''title'' = None \<or> m ''title'' = Some (Str [])" by (simp add: falsy_cases)
  have tail: "r \<noteq> [] \<and> \<not> is_space (last r)"
    if "body = pre @ CHR ''#'' # w # r" "is_space w" for pre w r
    using that trimmed by (cases "r = []") auto
  show ?thesis
  proof (cases "first_line_match h1_here True body")
    case None
    have noh: "\<forall>pre w r. body = pre @ CHR ''#'' # w # r \<and> (pre = [] \<or> is_lt (last pre))
                 \<longrightarrow> \<not> is_space w"
    proof (intro allI impI notI)
      fix pre w r
      assume a: "body = pre @ CHR ''#'' # w # r \<and> (pre = [] \<or> is_lt (last pre))" and w: "is_space w"
      from a have b: "body = pre @ CHR ''#'' # w # r" and l: "pre = [] \<or> is_lt (last pre)" by simp_all
      from first_line_match_True_NoneD [OF None b l] have "h1_here (CHR ''#'' # w # r) = None" .
      with w have "spaces_then_text r = None" by (simp add: h1_here_def)
      moreover from tail [OF b w] have "spaces_then_text r \<noteq> None"
        by (simp add: spaces_then_text_trimmed)
      ultimately show False by simp
    qed
    let ?t = "filename_title filePath"
    from None False have e: "extractTitle filePath m body = Str ?t" by (simp add: extractTitle_def)
    have ls: "last_segment filePath = seg"
      unfolding path(1) using path(3,4,2,5) by (rule last_segment_decomp)
    from basename_ext_decomp [OF ls path(3)] obtain stem ext where
      d: "seg = stem \<and> ext = [] \<or> seg = stem @ ext" and se: "seg = stem @ ext" and sn: "stem \<noteq> []"
      and x1: "ext = [] \<or> (\<exists>x. ext = CHR ''.'' # x \<and> CHR ''.'' \<notin> set x)"
      and x2: "ext = [] \<longleftrightarrow> (CHR ''.'' \<notin> set (tl seg) \<or> seg = ''..'')"
      and b: "path_basename_ext filePath (path_extname filePath) = stem" by blast
    have ft: "?t = capitalize False (map (\<lambda>c. if c = CHR ''-'' \<or> c = CHR ''_'' then CHR '' '' else c) stem)"
      by (simp add: filename_title_def Let_def b)
    have len: "length ?t = length stem" by (simp add: ft length_capitalize)
    with sn have tn: "?t \<noteq> []" by auto
    have chars: "\<forall>i < length stem. ?t ! i =
                            (if stem ! i = CHR ''-'' \<or> stem ! i = CHR ''_'' then CHR '' ''
                             else if is_lower (stem ! i)
                                     \<and> (i = 0 \<or> \<not> (is_upper (stem ! (i - 1)) \<or> is_lower (stem ! (i - 1))
                                                    \<or> is_digit (stem ! (i - 1))))
                                  then char_of (of_char (stem ! i) - (32::nat))
                                  else stem ! i)"
      unfolding ft using filename_title_chars by blast
    from se sn x1 x2 len chars
    have "\<exists>stem ext. seg = stem @ ext \<and> stem \<noteq> []
                       \<and> (ext = [] \<or> (\<exists>x. ext = CHR ''.'' # x \<and> CHR ''.'' \<notin> set x))
                       \<and> (ext = [] \<longleftrightarrow> (CHR ''.'' \<notin> set (tl seg) \<or> seg = ''..''))
                       \<and> length ?t = length stem
                       \<and> (\<forall>i < length stem. ?t ! i =
                            (if stem ! i = CHR ''-'' \<or> stem ! i = CHR ''_'' then CHR '' ''
                             else if is_lower (stem ! i)
                                     \<and> (i = 0 \<or> \<not> (is_upper (stem ! (i - 1)) \<or> is_lower (stem ! (i - 1))
                                                    \<or> is_digit (stem ! (i - 1))))
                                  then char_of (of_char (stem ! i) - (32::nat))
                                  else stem ! i))"
      by blast
    with e tn fc noh show ?thesis by blast
  next
    case (Some g)
    from first_line_match_True_SomeD [OF Some] obtain pre t where
      b: "body = pre @ t" and l: "pre = [] \<or> is_lt (last pre)" and h: "h1_here t = Some g" and
      least: "\<forall>pre' t'. body = pre' @ t' \<and> length pre' < length pre
            \<and> (pre' = [] \<or> is_lt (last pre')) \<longrightarrow> h1_here t' = None"
      by blast
    from h1_here_SomeD [OF h] obtain w r where
      t: "t = CHR ''#'' # w # r" and w: "is_space w" and g: "spaces_then_text r = Some g" by blast
    from b t have b': "body = pre @ CHR ''#'' # w # r" by simp
    from tail [OF b' w] have r: "r \<noteq> []" "\<not> is_space (last r)" by simp_all
    from g spaces_then_text_trimmed [OF r]
    have gg: "g = takeWhile (\<lambda>x. \<not> is_lt x) (dropWhile is_space r)" by simp
    have ne: "trim g \<noteq> []" unfolding gg using r by (rule heading_text_nonempty)
    have first: "\<forall>pre' w' r'. body = pre' @ CHR ''#'' # w' # r' \<and> length pre' < length pre
                             \<and> (pre' = [] \<or> is_lt (last pre')) \<longrightarrow> \<not> is_space w'"
    proof (intro allI impI notI)
      fix pre' w' r'
      assume a: "body = pre' @ CHR ''#'' # w' # r' \<and> length pre' < length pre
                             \<and> (pre' = [] \<or> is_lt (last pre'))" and w': "is_space w'"
      from a have b2: "body = pre' @ CHR ''#'' # w' # r'" by simp
      from a least have "h1_here (CHR ''#'' # w' # r') = None" by blast
      with w' have "spaces_then_text r' = None" by (simp add: h1_here_def)
      moreover from tail [OF b2 w'] have "spaces_then_text r' \<noteq> None"
        by (simp add: spaces_then_text_trimmed)
      ultimately show False by simp
    qed
    from Some False have e: "extractTitle filePath m body = Str (trim g)"
      by (simp add: extractTitle_def)
    from b' l w gg first
    have "\<exists>pre w r. body = pre @ CHR ''#'' # w # r \<and> (pre = [] \<or> is_lt (last pre)) \<and> is_space w
                       \<and> trim g = trim (takeWhile (\<lambda>x. \<not> is_lt x) (dropWhile is_space r))
                       \<and> (\<forall>pre' w' r'. body = pre' @ CHR ''#'' # w' # r' \<and> length pre' < length pre
                             \<and> (pre' = [] \<or> is_lt (last pre')) \<longrightarrow> \<not> is_space w')"
      by blast
    with e ne fc show ?thesis by blast
  qed
qed

text \<open>
  C3 as stated fails. For a body that is \<open>#\<close> and two spaces, the heading pattern matches
  with one space as its text, and the title is the empty string. The block header
  \<open>title: []\<close> of an MDX file gives the empty list as the title of the metadata, which is
  truthy and is returned: not a string. And the path \<open>/\<close>, which is not empty, has no file
  name: the title is the empty string.
\<close>

theorem extractTitle_empty_counterexample:
  "extractTitle ''docs/guide.md'' Map.empty ''#  '' = Str []
   \<and> extractTitle ''docs/guide.mdx''
       (metadata (processMDXFile ''---\<newline>title: []\<newline>---\<newline>Body'')) ''Body'' = Arr []
   \<and> extractTitle ''/'' Map.empty ''Body'' = Str []"
  by (simp add: extractTitle_def truthy_def h1_here_def is_space_def is_lt_def trim_def
      processMDXFile_def frontmatterMatch_def starts_with_def closing_here_def
      mdx_line_def set_key_def line_match_def is_word_def is_upper_def is_lower_def is_digit_def
      unquote_def is_quote_def ends_with_def parse_list_def strip_quotes_def
      filename_title_def path_extname_def path_basename_ext_def path_basename_def last_segment_def)

text \<open>
  Without a heading, the title of \<open>docs/my-guide.md\<close> is made from the file name.
\<close>

theorem extractTitle_nonempty_witness:
  "''docs/my-guide.md'' = ''docs/'' @ ''my-guide.md'' @ []
   \<and> last ''docs/'' = CHR ''/'' \<and> CHR ''/'' \<notin> set ''my-guide.md''
   \<and> \<not> is_space (last ''Text'')
   \<and> extractTitle ''docs/my-guide.md'' Map.empty ''Text'' = Str ''My Guide''
   \<and> (\<exists>stem ext. ''my-guide.md'' = stem @ ext \<and> stem \<noteq> [] \<and> length ''My Guide'' = length stem)"
proof -
  have p1: "''docs/my-guide.md'' = ''docs/'' @ ''my-guide.md'' @ []" by simp
  have p2: "''docs/'' = [] \<or> last ''docs/'' = CHR ''/''" by simp
  have p3: "''my-guide.md'' \<noteq> []" by simp
  have p4: "CHR ''/'' \<notin> set ''my-guide.md''" by simp
  have p5: "set [] \<subseteq> {CHR ''/''}" by simp
  have b0: "\<not> is_space (last ''Text'')" by (simp add: is_space_def)
  then have b: "''Text'' = [] \<or> \<not> is_space (last ''Text'')" by simp
  have e: "extractTitle ''docs/my-guide.md'' Map.empty ''Text'' = Str ''My Guide''"
    by code_simp
  have nh: "''Text'' \<noteq> pre @ CHR ''#'' # w # r" for pre w r
  proof
    assume "''Text'' = pre @ CHR ''#'' # w # r"
    then have "CHR ''#'' \<in> set ''Text''" by (metis in_set_conv_decomp)
    then show False by simp
  qed
  have m: "(Map.empty :: FileMetadata) ''title'' = None" by simp
  have gen: "S g" if "(\<exists>a. P a \<and> Q a) \<or> (\<exists>t. E t \<and> N t \<and> (M t \<or> (F \<and> H t) \<or> (F \<and> NH \<and> S t)))"
      "\<forall>a. \<not> P a" "\<forall>t. \<not> M t" "\<forall>t. \<not> H t" "\<forall>t. E t \<longrightarrow> t = g"
    for P Q E N M F H NH S and g :: string
    using that by blast
  have e': "\<forall>t. extractTitle ''docs/my-guide.md'' Map.empty ''Text'' = Str t \<longrightarrow> t = ''My Guide''"
    unfolding e by simp
  have m1: "\<forall>a. (Map.empty :: FileMetadata) ''title'' \<noteq> Some (Arr a)" by simp
  have m2: "\<forall>t. (Map.empty :: FileMetadata) ''title'' \<noteq> Some (Str t)" by simp
  have m3: "\<forall>t. \<not> (\<exists>pre w r. ''Text'' = pre @ CHR ''#'' # w # r \<and> (pre = [] \<or> is_lt (last pre)) \<and> is_space w
                       \<and> t = trim (takeWhile (\<lambda>x. \<not> is_lt x) (dropWhile is_space r))
                       \<and> (\<forall>pre' w' r'. ''Text'' = pre' @ CHR ''#'' # w' # r' \<and> length pre' < length pre
                             \<and> (pre' = [] \<or> is_lt (last pre')) \<longrightarrow> \<not> is_space w'))"
    using nh by blast
  from gen [OF extractTitle_nonempty [of "''docs/my-guide.md''" "''docs/''" "''my-guide.md''" "[]" "''Text''" Map.empty,
      OF p1 p2 p3 p4 p5 b] m1 m2 m3 e']
  have "\<exists>stem ext. ''my-guide.md'' = stem @ ext \<and> stem \<noteq> [] \<and> length ''My Guide'' = length stem"
    by blast
  with p1 p4 b0 e show ?thesis by simp
qed

subsection \<open>The fields of the embedded object\<close>

lemma first_match_Some_first:
  "first_match m s = Some r \<Longrightarrow>
   \<exists>pre t. s = pre @ t \<and> m t = Some r
     \<and> (\<forall>pre' t'. s = pre' @ t' \<and> length pre' < length pre \<longrightarrow> m t' = None)"
proof (induction s)
  case Nil
  then show ?case by simp
next
  case (Cons c cs)
  show ?case
  proof (cases "m (c # cs)")
    case (Some a)
    with Cons.prems have "m (c # cs) = Some r" by simp
    then show ?thesis by (rule_tac x = "[]" in exI, rule_tac x = "c # cs" in exI) simp
  next
    case None
    with Cons.prems have "first_match m cs = Some r" by simp
    from Cons.IH [OF this] obtain pre t where
      s: "cs = pre @ t" and mt: "m t = Some r" and
      least: "\<forall>pre' t'. cs = pre' @ t' \<and> length pre' < length pre \<longrightarrow> m t' = None"
      by blast
    have least': "\<forall>pre' t'. c # cs = pre' @ t' \<and> length pre' < length (c # pre) \<longrightarrow> m t' = None"
    proof (intro allI impI)
      fix pre' t'
      assume a: "c # cs = pre' @ t' \<and> length pre' < length (c # pre)"
      show "m t' = None"
      proof (cases pre')
        case Nil
        with a None show ?thesis by auto
      next
        case (Cons d ds)
        with a have "cs = ds @ t'" "length ds < length pre" by auto
        with least show ?thesis by blast
      qed
    qed
    have s': "c # cs = (c # pre) @ t" using s by simp
    from s' mt least' show ?thesis by blast
  qed
qed

lemma first_match_NoneD: "first_match m s = None \<Longrightarrow> s = pre @ t \<Longrightarrow> m t = None"
proof (induction s arbitrary: pre)
  case Nil
  then show ?case by simp
next
  case (Cons c cs)
  show ?case
  proof (cases pre)
    case Nil
    with Cons.prems show ?thesis by (auto split: option.splits)
  next
    case (Cons d ds)
    with Cons.prems have "first_match m cs = None" "cs = ds @ t" by (auto split: option.splits)
    then show ?thesis using Cons.IH by blast
  qed
qed

lemma starts_withD: "starts_with p s \<Longrightarrow> s = p @ drop (length p) s"
  unfolding starts_with_def by (metis append_take_drop_id)

lemma starts_with_append [simp]: "starts_with p (p @ r)"
  by (simp add: starts_with_def)

lemma quote_not_space: "is_quote q \<Longrightarrow> \<not> is_space q"
  by (auto simp: is_quote_def is_space_def)

lemma span_split:
  "dropWhile P xs = y # ys \<Longrightarrow> xs = takeWhile P xs @ y # ys \<and> \<not> P y"
  by (metis takeWhile_dropWhile_id hd_dropWhile list.sel(1) list.distinct(1))

lemma takeWhile_stop: "\<forall>c \<in> set v. P c \<Longrightarrow> \<not> P y \<Longrightarrow> takeWhile P (v @ y # r) = v"
  by (induction v) auto

lemma dropWhile_stop: "\<forall>c \<in> set v. P c \<Longrightarrow> \<not> P y \<Longrightarrow> dropWhile P (v @ y # r) = y # r"
  by (induction v) auto

lemma quoted_here_iff: "quoted_here key t = Some v \<longleftrightarrow> quoted_field_at key t [] v"
proof
  assume a: "quoted_here key t = Some v"
  then have sw: "starts_with (key @ '':'') t" by (simp add: quoted_here_def split: if_splits)
  define r0 where "r0 = drop (length key + 1) t"
  from starts_withD [OF sw] have t: "t = key @ '':'' @ r0" by (simp add: r0_def)
  from a sw obtain q r where d: "dropWhile is_space r0 = q # r" and q: "is_quote q"
    and v: "v = takeWhile (\<lambda>c. \<not> is_quote c) r" and vn: "v \<noteq> []"
    and dn: "dropWhile (\<lambda>c. \<not> is_quote c) r \<noteq> []"
    by (auto simp: quoted_here_def r0_def split: if_splits list.splits)
  from span_split [OF d] have r0: "r0 = takeWhile is_space r0 @ q # r" by simp
  from dn obtain q' rest where d2: "dropWhile (\<lambda>c. \<not> is_quote c) r = q' # rest"
    by (cases "dropWhile (\<lambda>c. \<not> is_quote c) r") auto
  from span_split [OF d2] v have r: "r = v @ q' # rest" and q': "is_quote q'" by simp_all
  have ws: "\<forall>c \<in> set (takeWhile is_space r0). is_space c" by (auto dest: set_takeWhileD)
  have vq: "\<forall>c \<in> set v. \<not> is_quote c" unfolding v by (auto dest: set_takeWhileD)
  have "t = [] @ key @ '':'' @ takeWhile is_space r0 @ q # v @ q' # rest"
    using t r0 r by simp
  with ws q q' vn vq show "quoted_field_at key t [] v" unfolding quoted_field_at_def by blast
next
  assume "quoted_field_at key t [] v"
  then obtain ws q q' rest where t: "t = key @ '':'' @ ws @ q # v @ q' # rest"
    and ws: "\<forall>c \<in> set ws. is_space c" and q: "is_quote q" and q': "is_quote q'"
    and vn: "v \<noteq> []" and vq: "\<forall>c \<in> set v. \<not> is_quote c"
    unfolding quoted_field_at_def by auto
  have sw: "starts_with (key @ '':'') t" unfolding t by (simp add: starts_with_def)
  have dr: "drop (length key + 1) t = ws @ q # v @ q' # rest" unfolding t by simp
  have d: "dropWhile is_space (ws @ q # v @ q' # rest) = q # v @ q' # rest"
    using ws quote_not_space [OF q] by (rule dropWhile_stop)
  have tw: "takeWhile (\<lambda>c. \<not> is_quote c) (v @ q' # rest) = v"
    using vq q' by (simp add: takeWhile_stop)
  have dw: "dropWhile (\<lambda>c. \<not> is_quote c) (v @ q' # rest) = q' # rest"
    using vq q' by (simp add: dropWhile_stop)
  show "quoted_here key t = Some v"
    using sw q vn by (simp only: quoted_here_def dr d list.case tw dw) simp
qed

lemma bracketed_here_iff: "bracketed_here t = Some v \<longleftrightarrow> bracketed_list_at t [] v"
proof
  assume a: "bracketed_here t = Some v"
  then have sw: "starts_with ''tags:'' t" by (simp add: bracketed_here_def split: if_splits)
  define r0 where "r0 = drop 5 t"
  have l5: "length ''tags:'' = 5" by simp
  from starts_withD [OF sw] have t: "t = ''tags:'' @ r0" unfolding l5 r0_def .
  from a sw obtain q r where d: "dropWhile is_space r0 = q # r" and q: "q = CHR ''[''"
    and v: "v = takeWhile (\<lambda>c. c \<noteq> CHR '']'') r" and vn: "v \<noteq> []"
    and dn: "dropWhile (\<lambda>c. c \<noteq> CHR '']'') r \<noteq> []"
    by (auto simp: bracketed_here_def r0_def split: if_splits list.splits)
  from span_split [OF d] have r0: "r0 = takeWhile is_space r0 @ q # r" by simp
  from dn obtain q' rest where d2: "dropWhile (\<lambda>c. c \<noteq> CHR '']'') r = q' # rest"
    by (cases "dropWhile (\<lambda>c. c \<noteq> CHR '']'') r") auto
  from span_split [OF d2, THEN conjunct2] have q': "q' = CHR '']''" by simp
  from span_split [OF d2, THEN conjunct1] have r: "r = v @ q' # rest" unfolding v .
  have ws: "\<forall>c \<in> set (takeWhile is_space r0). is_space c" by (auto dest: set_takeWhileD)
  have vq: "CHR '']'' \<notin> set v" unfolding v by (auto dest: set_takeWhileD)
  have "t = [] @ ''tags:'' @ takeWhile is_space r0 @ CHR ''['' # v @ CHR '']'' # rest"
    using t r0 r q q' by simp
  with ws vn vq show "bracketed_list_at t [] v" unfolding bracketed_list_at_def by blast
next
  assume "bracketed_list_at t [] v"
  then obtain ws rest where t: "t = ''tags:'' @ ws @ CHR ''['' # v @ CHR '']'' # rest"
    and ws: "\<forall>c \<in> set ws. is_space c"
    and vn: "v \<noteq> []" and vq: "CHR '']'' \<notin> set v"
    unfolding bracketed_list_at_def by auto
  have sw: "starts_with ''tags:'' t" unfolding t by (simp add: starts_with_def)
  have dr: "drop 5 t = ws @ CHR ''['' # v @ CHR '']'' # rest" unfolding t by simp
  have ns: "\<not> is_space CHR ''[''" by (simp add: is_space_def)
  have d: "dropWhile is_space (ws @ CHR ''['' # v @ CHR '']'' # rest) = CHR ''['' # v @ CHR '']'' # rest"
    using ws ns by (rule dropWhile_stop)
  from vq have vq': "\<forall>c \<in> set v. c \<noteq> CHR '']''" by auto
  have tw: "takeWhile (\<lambda>c. c \<noteq> CHR '']'') (v @ CHR '']'' # rest) = v"
    using vq' by (simp add: takeWhile_stop)
  have dw: "dropWhile (\<lambda>c. c \<noteq> CHR '']'') (v @ CHR '']'' # rest) = CHR '']'' # rest"
    using vq' by (simp add: dropWhile_stop)
  show "bracketed_here t = Some v"
    using sw vn by (simp only: bracketed_here_def dr d list.case tw dw) simp
qed

lemma quoted_field_at_shift:
  "quoted_field_at key (pre @ t) pre v \<longleftrightarrow> quoted_field_at key t [] v"
  by (simp add: quoted_field_at_def)

lemma quoted_field_at_part: "quoted_field_at key s pre v \<Longrightarrow> \<exists>t. s = pre @ t"
  by (auto simp: quoted_field_at_def)

lemma bracketed_list_at_shift:
  "bracketed_list_at (pre @ t) pre v \<longleftrightarrow> bracketed_list_at t [] v"
  by (simp add: bracketed_list_at_def)

lemma bracketed_list_at_part: "bracketed_list_at s pre v \<Longrightarrow> \<exists>t. s = pre @ t"
  by (auto simp: bracketed_list_at_def)


lemma first_match_leftmost:
  assumes here: "\<And>t r. m t = Some r \<longleftrightarrow> P t [] r"
      and shift: "\<And>pre t r. P (pre @ t) pre r \<longleftrightarrow> P t [] r"
      and part: "\<And>s pre r. P s pre r \<Longrightarrow> \<exists>t. s = pre @ t"
  shows "first_match m s = Some r
     \<longleftrightarrow> (\<exists>pre. P s pre r \<and> (\<forall>pre' r'. length pre' < length pre \<longrightarrow> \<not> P s pre' r'))"
proof
  assume a: "first_match m s = Some r"
  from first_match_Some_first [OF a] obtain pre t where s: "s = pre @ t" and m: "m t = Some r"
    and least: "\<forall>pre' t'. s = pre' @ t' \<and> length pre' < length pre \<longrightarrow> m t' = None" by blast
  from m have p: "P s pre r" unfolding s shift here .
  have "\<forall>pre' r'. length pre' < length pre \<longrightarrow> \<not> P s pre' r'"
  proof (intro allI impI notI)
    fix pre' r'
    assume l: "length pre' < length pre" and q: "P s pre' r'"
    from part [OF q] obtain t' where s': "s = pre' @ t'" ..
    from q have "P (pre' @ t') pre' r'" unfolding s' .
    then have "m t' = Some r'" unfolding shift here .
    moreover from least s' l have "m t' = None" by blast
    ultimately show False by simp
  qed
  with p show "\<exists>pre. P s pre r \<and> (\<forall>pre' r'. length pre' < length pre \<longrightarrow> \<not> P s pre' r')"
    by blast
next
  assume "\<exists>pre. P s pre r \<and> (\<forall>pre' r'. length pre' < length pre \<longrightarrow> \<not> P s pre' r')"
  then obtain pre where q: "P s pre r"
    and least: "\<forall>pre' r'. length pre' < length pre \<longrightarrow> \<not> P s pre' r'" by blast
  from part [OF q] obtain t where s: "s = pre @ t" ..
  from q have "P (pre @ t) pre r" unfolding s .
  then have m: "m t = Some r" unfolding shift here .
  have "first_match m s \<noteq> None"
  proof
    assume "first_match m s = None"
    from first_match_NoneD [OF this s] m show False by simp
  qed
  then obtain r2 where a: "first_match m s = Some r2" by auto
  from first_match_Some_first [OF a] obtain pre2 t2 where s2: "s = pre2 @ t2"
    and m2: "m t2 = Some r2"
    and least2: "\<forall>pre' t'. s = pre' @ t' \<and> length pre' < length pre2 \<longrightarrow> m t' = None" by blast
  from m2 have "P (pre2 @ t2) pre2 r2" unfolding shift here .
  then have q2: "P s pre2 r2" unfolding s2 .
  have "\<not> length pre2 < length pre" using least q2 by blast
  moreover have "\<not> length pre < length pre2"
  proof
    assume "length pre < length pre2"
    with least2 s have "m t = None" by blast
    with m show False by simp
  qed
  ultimately have "length pre = length pre2" by simp
  moreover from s s2 have "pre @ t = pre2 @ t2" by simp
  ultimately have "t = t2" by simp
  with m m2 have "r2 = r" by simp
  with a show "first_match m s = Some r" by simp
qed

lemma first_quoted_field_iff:
  "first_match (quoted_here key) s = Some v \<longleftrightarrow> first_quoted_field key s v"
  unfolding first_quoted_field_def
  by (rule first_match_leftmost [where P = "quoted_field_at key"])
     (rule quoted_here_iff quoted_field_at_shift quoted_field_at_part; assumption?)+

lemma first_bracketed_list_iff:
  "first_match bracketed_here s = Some v \<longleftrightarrow> first_bracketed_list s v"
  unfolding first_bracketed_list_def
  by (rule first_match_leftmost [where P = bracketed_list_at])
     (rule bracketed_here_iff bracketed_list_at_shift bracketed_list_at_part; assumption?)+

lemma extractMetadataValues_quoted:
  "k \<in> {''title'', ''description'', ''slug''} \<Longrightarrow>
   extractMetadataValues s k = map_option Str (first_match (quoted_here k) s)"
  by (auto simp: extractMetadataValues_def set_quoted_def set_tags_def Let_def split: option.splits)

lemma extractMetadataValues_tags:
  "extractMetadataValues s ''tags'' =
     (case first_match bracketed_here s of
        None \<Rightarrow> None
      | Some i \<Rightarrow> if parse_list i \<noteq> [] then Some (Arr (parse_list i)) else None)"
  by (auto simp: extractMetadataValues_def set_quoted_def set_tags_def Let_def split: option.splits)

lemma extractMetadataValues_dom:
  "dom (extractMetadataValues s) \<subseteq> {''title'', ''description'', ''slug'', ''tags''}"
  by (auto simp: extractMetadataValues_def set_quoted_def set_tags_def Let_def
      split: option.splits if_splits)

lemma split_on_parts: "p \<in> set (split_on c s) \<Longrightarrow> c \<notin> set p"
proof (induction s arbitrary: p)
  case Nil
  then show ?case by simp
next
  case (Cons x xs)
  obtain q qs where q: "split_on c xs = q # qs" by (cases "split_on c xs") auto
  with Cons show ?case by (auto split: if_splits)
qed

lemma split_on_segment: "c \<notin> set p \<Longrightarrow> split_on c (p @ c # rest) = p # split_on c rest"
  by (induction p) auto

lemma split_on_join:
  "parts \<noteq> [] \<Longrightarrow> \<forall>p \<in> set parts. c \<notin> set p \<Longrightarrow> split_on c (join_with [c] parts) = parts"
proof (induction "[c]" parts rule: join_with.induct)
  case 1
  then show ?case by simp
next
  case (2 p)
  then show ?case by (simp add: split_on_no_sep)
next
  case (3 p q ps)
  then show ?case by (simp add: split_on_segment)
qed


lemma after_word_SomeD:
  assumes "after_word w some s = Some r"
  shows "\<exists>ws. s = w @ ws @ r \<and> (\<forall>c \<in> set ws. is_space c) \<and> (some \<longrightarrow> ws \<noteq> [])"
proof -
  from assms have sw: "starts_with w s" by (simp add: after_word_def split: if_splits)
  from starts_withD [OF sw] obtain d where s: "s = w @ d" ..
  have dd: "drop (length w) s = d" unfolding s by simp
  from assms have r: "r = dropWhile is_space d"
    and sm: "some \<longrightarrow> (case d of [] \<Rightarrow> False | c # _ \<Rightarrow> is_space c)"
    unfolding after_word_def dd by (auto split: if_splits)
  have "s = w @ takeWhile is_space d @ dropWhile is_space d" unfolding s by simp
  then have "s = w @ takeWhile is_space d @ r" unfolding r .
  moreover have "\<forall>c \<in> set (takeWhile is_space d). is_space c" by (auto dest: set_takeWhileD)
  moreover have "some \<longrightarrow> takeWhile is_space d \<noteq> []" using sm by (cases d) auto
  ultimately show ?thesis by blast
qed

lemma after_word_SomeI:
  assumes "\<forall>c \<in> set ws. is_space c" "some \<longrightarrow> ws \<noteq> []" "\<not> is_space x"
  shows "after_word w some (w @ ws @ x # r) = Some (x # r)"
proof -
  have d: "dropWhile is_space (ws @ x # r) = x # r" using assms(1,3) by (rule dropWhile_stop)
  have c: "some \<longrightarrow> (case ws @ x # r of [] \<Rightarrow> False | c # _ \<Rightarrow> is_space c)"
    using assms(1,2) by (cases ws) auto
  show ?thesis unfolding after_word_def using c by (simp add: d)
qed

lemma newline_in_spaces:
  "CHR 0x0A \<in> set (takeWhile is_space r)
   \<longleftrightarrow> (\<exists>ws rest. r = ws @ CHR 0x0A # rest \<and> (\<forall>c \<in> set ws. is_space c))"
proof
  assume "CHR 0x0A \<in> set (takeWhile is_space r)"
  then obtain a b where ab: "takeWhile is_space r = a @ CHR 0x0A # b"
    by (auto simp: in_set_conv_decomp)
  have "r = (a @ CHR 0x0A # b) @ dropWhile is_space r"
    using takeWhile_dropWhile_id [of is_space r] unfolding ab by simp
  then have "r = a @ CHR 0x0A # (b @ dropWhile is_space r)" by simp
  moreover have "\<forall>c \<in> set a. is_space c"
  proof
    fix c assume "c \<in> set a"
    then have "c \<in> set (takeWhile is_space r)" unfolding ab by simp
    then show "is_space c" by (rule set_takeWhileD [THEN conjunct2])
  qed
  ultimately show "\<exists>ws rest. r = ws @ CHR 0x0A # rest \<and> (\<forall>c \<in> set ws. is_space c)" by blast
next
  assume "\<exists>ws rest. r = ws @ CHR 0x0A # rest \<and> (\<forall>c \<in> set ws. is_space c)"
  then obtain ws rest where r: "r = ws @ CHR 0x0A # rest" and ws: "\<forall>c \<in> set ws. is_space c"
    by blast
  have "takeWhile is_space (ws @ CHR 0x0A # rest) = ws @ CHR 0x0A # takeWhile is_space rest"
    using ws by (simp add: takeWhile_append2 is_space_def)
  then show "CHR 0x0A \<in> set (takeWhile is_space r)" unfolding r by simp
qed

lemma stmt_end_iff: "stmt_end s \<longleftrightarrow> ends_statement s"
proof (cases s)
  case Nil
  then show ?thesis by (simp add: stmt_end_def ends_statement_def)
next
  case (Cons c cs)
  show ?thesis
  proof (cases "c = CHR '';''")
    case True
    have "ends_statement (CHR '';'' # cs)
          \<longleftrightarrow> (\<exists>ws rest. cs = ws @ CHR 0x0A # rest \<and> (\<forall>c \<in> set ws. is_space c))"
    proof
      assume "ends_statement (CHR '';'' # cs)"
      then obtain semi ws rest where e: "CHR '';'' # cs = semi @ ws @ CHR 0x0A # rest"
        and semi: "semi = [] \<or> semi = '';''" and ws: "\<forall>c \<in> set ws. is_space c"
        unfolding ends_statement_def by blast
      from semi show "\<exists>ws rest. cs = ws @ CHR 0x0A # rest \<and> (\<forall>c \<in> set ws. is_space c)"
      proof
        assume "semi = []"
        with e ws have False by (cases ws) (auto simp: is_space_def)
        then show ?thesis ..
      next
        assume "semi = '';''"
        with e ws show ?thesis by auto
      qed
    next
      assume "\<exists>ws rest. cs = ws @ CHR 0x0A # rest \<and> (\<forall>c \<in> set ws. is_space c)"
      then obtain ws rest where "cs = ws @ CHR 0x0A # rest" and ws: "\<forall>c \<in> set ws. is_space c"
        by blast
      then have "CHR '';'' # cs = '';'' @ ws @ CHR 0x0A # rest" by simp
      with ws show "ends_statement (CHR '';'' # cs)" unfolding ends_statement_def by blast
    qed
    with True Cons show ?thesis by (simp add: stmt_end_def newline_in_spaces)
  next
    case False
    have "ends_statement (c # cs)
          \<longleftrightarrow> (\<exists>ws rest. c # cs = ws @ CHR 0x0A # rest \<and> (\<forall>c \<in> set ws. is_space c))"
    proof
      assume "ends_statement (c # cs)"
      then obtain semi ws rest where e: "c # cs = semi @ ws @ CHR 0x0A # rest"
        and semi: "semi = [] \<or> semi = '';''" and ws: "\<forall>c \<in> set ws. is_space c"
        unfolding ends_statement_def by blast
      from semi show "\<exists>ws rest. c # cs = ws @ CHR 0x0A # rest \<and> (\<forall>c \<in> set ws. is_space c)"
      proof
        assume "semi = []"
        with e ws show ?thesis by auto
      next
        assume "semi = '';''"
        with e False have False by simp
        then show ?thesis ..
      qed
    next
      assume "\<exists>ws rest. c # cs = ws @ CHR 0x0A # rest \<and> (\<forall>c \<in> set ws. is_space c)"
      then obtain ws rest where "c # cs = ws @ CHR 0x0A # rest" and ws: "\<forall>c \<in> set ws. is_space c"
        by blast
      then have "c # cs = [] @ ws @ CHR 0x0A # rest" by simp
      with ws show "ends_statement (c # cs)" unfolding ends_statement_def by blast
    qed
    with False Cons show ?thesis by (simp add: stmt_end_def newline_in_spaces)
  qed
qed

lemma lazy_object_SomeD:
  "lazy_object s = Some g' \<Longrightarrow>
   \<exists>g rest. s = g @ CHR ''}'' # rest \<and> g' = g @ ''}'' \<and> stmt_end rest
     \<and> (\<forall>g1 rest1. s = g1 @ CHR ''}'' # rest1 \<and> length g1 < length g \<longrightarrow> \<not> stmt_end rest1)"
proof (induction s arbitrary: g')
  case Nil
  then show ?case by simp
next
  case (Cons c cs)
  show ?case
  proof (cases "c = CHR ''}'' \<and> stmt_end cs")
    case True
    with Cons.prems have "g' = ''}''" by simp
    with True show ?thesis by (rule_tac x = "[]" in exI, rule_tac x = cs in exI) simp
  next
    case False
    with Cons.prems obtain h where h: "lazy_object cs = Some h" and g': "g' = c # h"
      by (auto split: option.splits)
    from Cons.IH [OF h] obtain g rest where cs: "cs = g @ CHR ''}'' # rest" and hh: "h = g @ ''}''"
      and e: "stmt_end rest"
      and least: "\<forall>g1 rest1. cs = g1 @ CHR ''}'' # rest1 \<and> length g1 < length g \<longrightarrow> \<not> stmt_end rest1"
      by blast
    have least': "\<forall>g1 rest1. c # cs = g1 @ CHR ''}'' # rest1 \<and> length g1 < length (c # g)
                    \<longrightarrow> \<not> stmt_end rest1"
    proof (intro allI impI)
      fix g1 rest1
      assume a: "c # cs = g1 @ CHR ''}'' # rest1 \<and> length g1 < length (c # g)"
      show "\<not> stmt_end rest1"
      proof (cases g1)
        case Nil
        with a False show ?thesis by auto
      next
        case (Cons d ds)
        with a have "cs = ds @ CHR ''}'' # rest1" "length ds < length g" by auto
        with least show ?thesis by blast
      qed
    qed
    have "c # cs = (c # g) @ CHR ''}'' # rest" using cs by simp
    moreover have "g' = (c # g) @ ''}''" using g' hh by simp
    ultimately show ?thesis using e least' by blast
  qed
qed

lemma lazy_object_NoneD:
  "lazy_object s = None \<Longrightarrow> s = g @ CHR ''}'' # rest \<Longrightarrow> \<not> stmt_end rest"
proof (induction s arbitrary: g)
  case Nil
  then show ?case by simp
next
  case (Cons c cs)
  show ?case
  proof (cases g)
    case Nil
    with Cons.prems show ?thesis by (auto split: if_splits)
  next
    case (Cons d ds)
    with Cons.prems have "lazy_object cs = None" "cs = ds @ CHR ''}'' # rest"
      by (auto split: if_splits option.splits)
    then show ?thesis using Cons.IH by blast
  qed
qed


lemma export_head_SomeD:
  assumes "export_head t = Some s5"
  shows "\<exists>w1 w2 w3 w4.
           t = ''export'' @ w1 @ ''const'' @ w2 @ ''metadata'' @ w3 @ ''='' @ w4 @ CHR ''{'' # s5
           \<and> w1 \<noteq> [] \<and> w2 \<noteq> [] \<and> (\<forall>x \<in> set (w1 @ w2 @ w3 @ w4). is_space x)"
proof -
  from assms obtain s1 s2 s3 where
    a1: "after_word ''export'' True t = Some s1" and
    a2: "after_word ''const'' True s1 = Some s2" and
    a3: "after_word ''metadata'' False s2 = Some s3" and
    a4: "after_word ''='' False s3 = Some (CHR ''{'' # s5)"
    by (auto simp: export_head_def split: option.splits list.splits if_splits)
  from after_word_SomeD [OF a1] obtain w1 where
    t: "t = ''export'' @ w1 @ s1" and w1: "\<forall>c \<in> set w1. is_space c" "w1 \<noteq> []" by blast
  from after_word_SomeD [OF a2] obtain w2 where
    s1: "s1 = ''const'' @ w2 @ s2" and w2: "\<forall>c \<in> set w2. is_space c" "w2 \<noteq> []" by blast
  from after_word_SomeD [OF a3] obtain w3 where
    s2: "s2 = ''metadata'' @ w3 @ s3" and w3: "\<forall>c \<in> set w3. is_space c" by blast
  from after_word_SomeD [OF a4] obtain w4 where
    s3: "s3 = ''='' @ w4 @ CHR ''{'' # s5" and w4: "\<forall>c \<in> set w4. is_space c" by blast
  have "t = ''export'' @ w1 @ ''const'' @ w2 @ ''metadata'' @ w3 @ ''='' @ w4 @ CHR ''{'' # s5"
    unfolding t s1 s2 s3 ..
  moreover have "\<forall>x \<in> set (w1 @ w2 @ w3 @ w4). is_space x" using w1 w2 w3 w4 by auto
  ultimately show ?thesis using w1(2) w2(2) by blast
qed

lemma export_head_SomeI:
  assumes t: "t = ''export'' @ w1 @ ''const'' @ w2 @ ''metadata'' @ w3 @ ''='' @ w4 @ CHR ''{'' # s5"
      and n: "w1 \<noteq> []" "w2 \<noteq> []" and sp: "\<forall>x \<in> set (w1 @ w2 @ w3 @ w4). is_space x"
  shows "export_head t = Some s5"
proof -
  define s3 where "s3 = ''='' @ w4 @ CHR ''{'' # s5"
  define s2 where "s2 = ''metadata'' @ w3 @ s3"
  define s1 where "s1 = ''const'' @ w2 @ s2"
  from sp have w1: "\<forall>c \<in> set w1. is_space c" and w2: "\<forall>c \<in> set w2. is_space c"
    and w3: "\<forall>c \<in> set w3. is_space c" and w4: "\<forall>c \<in> set w4. is_space c" by auto
  have ns: "\<not> is_space CHR ''c''" "\<not> is_space CHR ''m''" "\<not> is_space CHR ''=''" "\<not> is_space CHR ''{''"
    by (simp_all add: is_space_def)
  have t': "t = ''export'' @ w1 @ s1" unfolding t s1_def s2_def s3_def ..
  have a1: "after_word ''export'' True t = Some s1"
    unfolding t' using after_word_SomeI [OF w1 _ ns(1), of True "''export''" "''onst'' @ w2 @ s2"] n
    by (simp add: s1_def)
  have a2: "after_word ''const'' True s1 = Some s2"
    using after_word_SomeI [OF w2 _ ns(2), of True "''const''" "''etadata'' @ w3 @ s3"] n
    by (simp add: s1_def s2_def)
  have a3: "after_word ''metadata'' False s2 = Some s3"
    using after_word_SomeI [OF w3 _ ns(3), of False "''metadata''" "w4 @ CHR ''{'' # s5"]
    by (simp add: s2_def s3_def)
  have a4: "after_word ''='' False s3 = Some (CHR ''{'' # s5)"
    using after_word_SomeI [OF w4 _ ns(4), of False "''=''" s5]
    by (simp add: s3_def)
  show ?thesis by (simp add: export_head_def a1 a2 a3 a4)
qed

lemma export_here_iff: "export_here t = Some s \<longleftrightarrow> embedded_object_at t [] s"
proof
  assume a: "export_here t = Some s"
  then obtain s5 g' where h: "export_head t = Some s5" and l: "lazy_object s5 = Some g'"
    and s: "s = CHR ''{'' # g'"
    by (auto simp: export_here_def split: option.splits)
  from export_head_SomeD [OF h] obtain w1 w2 w3 w4 where
    t: "t = ''export'' @ w1 @ ''const'' @ w2 @ ''metadata'' @ w3 @ ''='' @ w4 @ CHR ''{'' # s5"
    and n: "w1 \<noteq> []" "w2 \<noteq> []" and sp: "\<forall>x \<in> set (w1 @ w2 @ w3 @ w4). is_space x" by blast
  from lazy_object_SomeD [OF l] obtain g rest where s5: "s5 = g @ CHR ''}'' # rest"
    and g': "g' = g @ ''}''" and e: "stmt_end rest"
    and least: "\<forall>g1 rest1. s5 = g1 @ CHR ''}'' # rest1 \<and> length g1 < length g \<longrightarrow> \<not> stmt_end rest1"
    by blast
  have t2: "t = [] @ ''export'' @ w1 @ ''const'' @ w2 @ ''metadata'' @ w3 @ ''='' @ w4 @ s @ rest"
    unfolding t s g' s5 by simp
  have s2: "s = CHR ''{'' # g @ ''}''" unfolding s g' ..
  have e2: "ends_statement rest" using e by (simp add: stmt_end_iff)
  have least2: "\<forall>g' rest'. g @ ''}'' @ rest = g' @ ''}'' @ rest' \<and> length g' < length g
                 \<longrightarrow> \<not> ends_statement rest'"
    using least unfolding s5 stmt_end_iff by simp
  from t2 n sp s2 e2 least2 show "embedded_object_at t [] s"
    unfolding embedded_object_at_def by blast
next
  assume "embedded_object_at t [] s"
  then obtain w1 w2 w3 w4 g rest where
    t: "t = [] @ ''export'' @ w1 @ ''const'' @ w2 @ ''metadata'' @ w3 @ ''='' @ w4 @ s @ rest"
    and n: "w1 \<noteq> []" "w2 \<noteq> []" and sp: "\<forall>x \<in> set (w1 @ w2 @ w3 @ w4). is_space x"
    and s: "s = CHR ''{'' # g @ ''}''" and e: "ends_statement rest"
    and least: "\<forall>g' rest'. g @ ''}'' @ rest = g' @ ''}'' @ rest' \<and> length g' < length g
                 \<longrightarrow> \<not> ends_statement rest'"
    unfolding embedded_object_at_def by blast
  define s5 where "s5 = g @ CHR ''}'' # rest"
  have t2: "t = ''export'' @ w1 @ ''const'' @ w2 @ ''metadata'' @ w3 @ ''='' @ w4 @ CHR ''{'' # s5"
    unfolding t s s5_def by simp
  from export_head_SomeI [OF t2 n sp] have h: "export_head t = Some s5" .
  have "lazy_object s5 \<noteq> None"
  proof
    assume "lazy_object s5 = None"
    from lazy_object_NoneD [OF this s5_def] e show False by (simp add: stmt_end_iff)
  qed
  then obtain g' where l: "lazy_object s5 = Some g'" by auto
  from lazy_object_SomeD [OF l] obtain g2 rest2 where s52: "s5 = g2 @ CHR ''}'' # rest2"
    and g': "g' = g2 @ ''}''" and e2: "stmt_end rest2"
    and least2: "\<forall>g1 rest1. s5 = g1 @ CHR ''}'' # rest1 \<and> length g1 < length g2 \<longrightarrow> \<not> stmt_end rest1"
    by blast
  have "\<not> length g2 < length g"
  proof
    assume "length g2 < length g"
    moreover have "g @ ''}'' @ rest = g2 @ ''}'' @ rest2" using s52 unfolding s5_def by simp
    ultimately have "\<not> ends_statement rest2" using least by blast
    with e2 show False by (simp add: stmt_end_iff)
  qed
  moreover have "\<not> length g < length g2"
  proof
    assume "length g < length g2"
    with least2 s5_def have "\<not> stmt_end rest" by blast
    with e show False by (simp add: stmt_end_iff)
  qed
  ultimately have "length g = length g2" by simp
  moreover have "g @ CHR ''}'' # rest = g2 @ CHR ''}'' # rest2" using s52 unfolding s5_def .
  ultimately have "g = g2" by simp
  with g' s have "s = CHR ''{'' # g'" by simp
  with h l show "export_here t = Some s" by (simp add: export_here_def)
qed

lemma embedded_object_at_shift:
  "embedded_object_at (pre @ t) pre s \<longleftrightarrow> (pre = [] \<or> is_lt (last pre)) \<and> embedded_object_at t [] s"
  by (simp add: embedded_object_at_def)

lemma embedded_object_at_part: "embedded_object_at c pre s \<Longrightarrow> \<exists>t. c = pre @ t"
  unfolding embedded_object_at_def by blast

lemma first_embedded_object_iff:
  "first_line_match export_here True c = Some s \<longleftrightarrow> first_embedded_object c s"
proof
  assume a: "first_line_match export_here True c = Some s"
  from first_line_match_True_SomeD [OF a] obtain pre t where c: "c = pre @ t"
    and l: "pre = [] \<or> is_lt (last pre)" and m: "export_here t = Some s"
    and least: "\<forall>pre' t'. c = pre' @ t' \<and> length pre' < length pre
            \<and> (pre' = [] \<or> is_lt (last pre')) \<longrightarrow> export_here t' = None" by blast
  from m l have p: "embedded_object_at c pre s"
    unfolding c embedded_object_at_shift export_here_iff by simp
  have "\<forall>pre' s'. length pre' < length pre \<longrightarrow> \<not> embedded_object_at c pre' s'"
  proof (intro allI impI notI)
    fix pre' s'
    assume n: "length pre' < length pre" and q: "embedded_object_at c pre' s'"
    from embedded_object_at_part [OF q] obtain t' where c': "c = pre' @ t'" ..
    from q have "embedded_object_at (pre' @ t') pre' s'" unfolding c' .
    then have l': "pre' = [] \<or> is_lt (last pre')" and "export_here t' = Some s'"
      unfolding embedded_object_at_shift export_here_iff by simp_all
    moreover from least c' n l' have "export_here t' = None" by blast
    ultimately show False by simp
  qed
  with p show "first_embedded_object c s" unfolding first_embedded_object_def by blast
next
  assume "first_embedded_object c s"
  then obtain pre where q: "embedded_object_at c pre s"
    and least: "\<forall>pre' s'. length pre' < length pre \<longrightarrow> \<not> embedded_object_at c pre' s'"
    unfolding first_embedded_object_def by blast
  from embedded_object_at_part [OF q] obtain t where c: "c = pre @ t" ..
  from q have "embedded_object_at (pre @ t) pre s" unfolding c .
  then have l: "pre = [] \<or> is_lt (last pre)" and m: "export_here t = Some s"
    unfolding embedded_object_at_shift export_here_iff by simp_all
  have "first_line_match export_here True c \<noteq> None"
  proof
    assume "first_line_match export_here True c = None"
    from first_line_match_True_NoneD [OF this c l] m show False by simp
  qed
  then obtain s2 where a: "first_line_match export_here True c = Some s2" by auto
  from first_line_match_True_SomeD [OF a] obtain pre2 t2 where c2: "c = pre2 @ t2"
    and l2: "pre2 = [] \<or> is_lt (last pre2)" and m2: "export_here t2 = Some s2"
    and least2: "\<forall>pre' t'. c = pre' @ t' \<and> length pre' < length pre2
            \<and> (pre' = [] \<or> is_lt (last pre')) \<longrightarrow> export_here t' = None" by blast
  from m2 l2 have "embedded_object_at (pre2 @ t2) pre2 s2"
    unfolding embedded_object_at_shift export_here_iff by simp
  then have q2: "embedded_object_at c pre2 s2" unfolding c2 .
  have "\<not> length pre2 < length pre" using least q2 by blast
  moreover have "\<not> length pre < length pre2"
  proof
    assume "length pre < length pre2"
    with least2 c l have "export_here t = None" by blast
    with m show False by simp
  qed
  ultimately have "length pre = length pre2" by simp
  moreover from c c2 have "pre @ t = pre2 @ t2" by simp
  ultimately have "t = t2" by simp
  with m m2 have "s2 = s" by simp
  with a show "first_line_match export_here True c = Some s" by simp
qed

lemma metadata_without_block:
  assumes "\<not> (\<exists>g rest. frontmatterMatch c = Some (g, rest) \<and> g \<noteq> [])"
  shows "metadata (processMDXFile c) =
           (case first_line_match export_here True c of
              Some s \<Rightarrow> extractMetadataValues s
            | None \<Rightarrow> Map.empty)"
proof (cases "frontmatterMatch c")
  case None
  then show ?thesis by (auto simp: processMDXFile_def split: option.splits)
next
  case (Some a)
  with assms obtain rest where "frontmatterMatch c = Some ([], rest)" by (cases a) auto
  then show ?thesis by (auto simp: processMDXFile_def split: option.splits)
qed


text \<open>
  C5, as amended. Let the text have no block header (none, or one whose inside is empty).
  Either no statement \<open>export const metadata = {...}\<close> stands at the start of a line, and
  the metadata is empty; or the metadata is read from the object text \<open>s\<close> of the first such
  statement, as follows.

    \<^item> No key other than \<open>title\<close>, \<open>description\<close>, \<open>slug\<close> and \<open>tags\<close> is stored.

    \<^item> The value of \<open>title\<close>, \<open>description\<close> and \<open>slug\<close> is the string at the leftmost place of
      \<open>s\<close> where the name, a colon, white space, a quote character, a text that is not empty
      and holds no quote character, and a quote character stand: that text. The key is
      stored exactly when there is such a place.

    \<^item> The value of \<open>tags\<close> is the list made from the leftmost place of \<open>s\<close> where \<open>tags:\<close>,
      white space, \<open>[\<close>, a text that is not empty and holds no \<open>]\<close>, and \<open>]\<close> stand: the parts
      of that text between its commas, each trimmed and then without its quote
      characters, the empty ones dropped. The key is stored exactly when there is such a
      place and the list is not empty.
\<close>

theorem processMDXFile_embedded_fields:
  assumes "\<not> (\<exists>g rest. frontmatterMatch c = Some (g, rest) \<and> g \<noteq> [])"
  shows "((\<forall>s. \<not> first_embedded_object c s) \<and> metadata (processMDXFile c) = Map.empty)
     \<or> (\<exists>s. first_embedded_object c s \<and> (\<forall>s'. first_embedded_object c s' \<longrightarrow> s' = s)
          \<and> dom (metadata (processMDXFile c)) \<subseteq> {''title'', ''description'', ''slug'', ''tags''}
          \<and> (\<forall>k \<in> {''title'', ''description'', ''slug''}. \<forall>x.
                metadata (processMDXFile c) k = Some x
                \<longleftrightarrow> (\<exists>v. x = Str v \<and> first_quoted_field k s v))
          \<and> (\<forall>x. metadata (processMDXFile c) ''tags'' = Some x
                \<longleftrightarrow> (\<exists>parts. first_bracketed_list s (join_with '','' parts)
                       \<and> parts \<noteq> [] \<and> (\<forall>p \<in> set parts. CHR '','' \<notin> set p)
                       \<and> x = Arr (filter (\<lambda>t. t \<noteq> [])
                                   (map (\<lambda>p. filter (\<lambda>c. \<not> is_quote c) (trim p)) parts))
                       \<and> filter (\<lambda>t. t \<noteq> [])
                           (map (\<lambda>p. filter (\<lambda>c. \<not> is_quote c) (trim p)) parts) \<noteq> [])))"
proof (cases "first_line_match export_here True c")
  case None
  with metadata_without_block [OF assms] have "metadata (processMDXFile c) = Map.empty" by simp
  moreover have "\<forall>s. \<not> first_embedded_object c s"
    using None unfolding first_embedded_object_iff [symmetric] by simp
  ultimately show ?thesis by blast
next
  case (Some s)
  let ?m = "metadata (processMDXFile c)"
  let ?elems = "\<lambda>parts. filter (\<lambda>t. t \<noteq> []) (map (\<lambda>p. filter (\<lambda>c. \<not> is_quote c) (trim p)) parts)"
  from Some metadata_without_block [OF assms] have m: "?m = extractMetadataValues s" by simp
  have pl: "parse_list i = ?elems (split_on CHR '','' i)" for i
    by (simp add: parse_list_def strip_quotes_def)
  have f: "first_embedded_object c s" using Some by (simp add: first_embedded_object_iff)
  have u: "\<forall>s'. first_embedded_object c s' \<longrightarrow> s' = s"
    using Some unfolding first_embedded_object_iff [symmetric] by simp
  have d: "dom ?m \<subseteq> {''title'', ''description'', ''slug'', ''tags''}"
    unfolding m by (rule extractMetadataValues_dom)
  have q: "\<forall>k \<in> {''title'', ''description'', ''slug''}. \<forall>x.
             ?m k = Some x \<longleftrightarrow> (\<exists>v. x = Str v \<and> first_quoted_field k s v)"
  proof (intro ballI allI)
    fix k x
    assume k: "k \<in> {''title'', ''description'', ''slug''}"
    show "?m k = Some x \<longleftrightarrow> (\<exists>v. x = Str v \<and> first_quoted_field k s v)"
      unfolding m extractMetadataValues_quoted [OF k] first_quoted_field_iff [symmetric] by auto
  qed
  have t: "\<forall>x. ?m ''tags'' = Some x
             \<longleftrightarrow> (\<exists>parts. first_bracketed_list s (join_with '','' parts)
                    \<and> parts \<noteq> [] \<and> (\<forall>p \<in> set parts. CHR '','' \<notin> set p)
                    \<and> x = Arr (?elems parts) \<and> ?elems parts \<noteq> [])"
  proof (intro allI iffI)
    fix x
    assume "?m ''tags'' = Some x"
    then obtain i where i: "first_match bracketed_here s = Some i" and p: "parse_list i \<noteq> []"
      and x: "x = Arr (parse_list i)"
      unfolding m extractMetadataValues_tags by (auto split: option.splits if_splits)
    let ?parts = "split_on CHR '','' i"
    have "first_bracketed_list s (join_with '','' ?parts)"
      using i by (simp add: join_split first_bracketed_list_iff)
    moreover have "?parts \<noteq> []" by simp
    moreover have "\<forall>p \<in> set ?parts. CHR '','' \<notin> set p" by (auto dest: split_on_parts)
    moreover have "x = Arr (?elems ?parts)" using x unfolding pl .
    moreover have "?elems ?parts \<noteq> []" using p unfolding pl .
    ultimately show "\<exists>parts. first_bracketed_list s (join_with '','' parts)
                    \<and> parts \<noteq> [] \<and> (\<forall>p \<in> set parts. CHR '','' \<notin> set p)
                    \<and> x = Arr (?elems parts) \<and> ?elems parts \<noteq> []" by blast
  next
    fix x
    assume "\<exists>parts. first_bracketed_list s (join_with '','' parts)
                    \<and> parts \<noteq> [] \<and> (\<forall>p \<in> set parts. CHR '','' \<notin> set p)
                    \<and> x = Arr (?elems parts) \<and> ?elems parts \<noteq> []"
    then obtain parts where b: "first_bracketed_list s (join_with '','' parts)"
      and n: "parts \<noteq> []" and nc: "\<forall>p \<in> set parts. CHR '','' \<notin> set p"
      and x: "x = Arr (?elems parts)" and ne: "?elems parts \<noteq> []" by blast
    from split_on_join [OF n nc] have sp: "split_on CHR '','' (join_with '','' parts) = parts" .
    from b have i: "first_match bracketed_here s = Some (join_with '','' parts)"
      by (simp add: first_bracketed_list_iff)
    have "parse_list (join_with '','' parts) = ?elems parts" unfolding pl sp ..
    with x ne show "?m ''tags'' = Some x" unfolding m extractMetadataValues_tags i by simp
  qed
  show ?thesis by (rule disjI2, rule exI [of _ s], intro conjI f u d q t)
qed

text \<open>
  C5 as stated fails: a field other than the four is not always ignored. The place where
  \<open>title:\<close> stands need not be the start of a field name, so the pattern matches inside
  \<open>subtitle\<close>, and the value of that field becomes the title of an object that has none.
\<close>

theorem processMDXFile_other_field_counterexample:
  "metadata (processMDXFile ''export const metadata = {subtitle: \"Guide\"};\<newline>\<newline>Body'') ''title''
   = Some (Str ''Guide'')"
  by (simp add: processMDXFile_def frontmatterMatch_def starts_with_def export_here_def export_head_def
      after_word_def is_space_def stmt_end_def extractMetadataValues_def set_quoted_def set_tags_def
      quoted_here_def bracketed_here_def is_quote_def)

text \<open>
  An object with a title, an author and tags: the title and the tags are stored, the author
  is not, and there is no slug.
\<close>

theorem processMDXFile_embedded_fields_witness:
  "\<not> (\<exists>g rest. frontmatterMatch ''export const metadata = {title: \"X\", author: \"me\", tags: [\"a\", b]};\<newline>\<newline>Body'' = Some (g, rest) \<and> g \<noteq> [])
   \<and> map (metadata (processMDXFile ''export const metadata = {title: \"X\", author: \"me\", tags: [\"a\", b]};\<newline>\<newline>Body''))
        [''title'', ''description'', ''slug'', ''tags'', ''author'']
     = [Some (Str ''X''), None, None, Some (Arr [''a'', ''b'']), None]
   \<and> (\<exists>s. first_embedded_object ''export const metadata = {title: \"X\", author: \"me\", tags: [\"a\", b]};\<newline>\<newline>Body'' s \<and> first_quoted_field ''title'' s ''X''
          \<and> (\<forall>v. \<not> first_quoted_field ''slug'' s v))"
proof -
  let ?c = "''export const metadata = {title: \"X\", author: \"me\", tags: [\"a\", b]};\<newline>\<newline>Body''"
  have f: "\<not> (\<exists>g rest. frontmatterMatch ?c = Some (g, rest) \<and> g \<noteq> [])"
    by (simp add: frontmatterMatch_def starts_with_def)
  have e: "map (metadata (processMDXFile ?c))
        [''title'', ''description'', ''slug'', ''tags'', ''author'']
     = [Some (Str ''X''), None, None, Some (Arr [''a'', ''b'']), None]"
    by (simp add: processMDXFile_def frontmatterMatch_def starts_with_def export_here_def export_head_def
      after_word_def is_space_def stmt_end_def extractMetadataValues_def set_quoted_def set_tags_def
      quoted_here_def bracketed_here_def is_quote_def parse_list_def strip_quotes_def trim_def)
  then have e1: "metadata (processMDXFile ?c) ''title'' = Some (Str ''X'')"
    and e2: "metadata (processMDXFile ?c) ''slug'' = None" by simp_all
  from e1 have ne: "metadata (processMDXFile ?c) \<noteq> Map.empty" by auto
  have gen: "\<exists>s. P s \<and> Q s"
    if "(A \<and> B) \<or> (\<exists>s. P s \<and> U s \<and> D s \<and> Q s \<and> T s)" "\<not> B"
    for A B and P U D Q T :: "string \<Rightarrow> bool"
    using that by blast
  from gen [OF processMDXFile_embedded_fields [OF f] ne] obtain s where
    s: "first_embedded_object ?c s"
    and q: "\<forall>k \<in> {''title'', ''description'', ''slug''}. \<forall>x.
                metadata (processMDXFile ?c) k = Some x
                \<longleftrightarrow> (\<exists>v. x = Str v \<and> first_quoted_field k s v)"
    by (elim exE conjE)
  from q have q1: "metadata (processMDXFile ?c) ''title'' = Some (Str ''X'')
                \<longleftrightarrow> (\<exists>v. Str ''X'' = Str v \<and> first_quoted_field ''title'' s v)" by simp
  from q have q2: "\<forall>x. metadata (processMDXFile ?c) ''slug'' = Some x
                \<longleftrightarrow> (\<exists>v. x = Str v \<and> first_quoted_field ''slug'' s v)" by simp
  from q1 e1 have t: "first_quoted_field ''title'' s ''X''" by simp
  from q2 e2 have n: "\<forall>v. \<not> first_quoted_field ''slug'' s v" by simp
  from s t n have "\<exists>s. first_embedded_object ?c s \<and> first_quoted_field ''title'' s ''X''
          \<and> (\<forall>v. \<not> first_quoted_field ''slug'' s v)" by blast
  with f e show ?thesis by (intro conjI)
qed

end
